theory Spec2Isabelle
  imports Main "HOL-Library.Signed_Division"
begin

unbundle bit_operations_syntax

section \<open>The chunked memory pool of blenlib (BLI\_mempool.c)\<close>

text \<open>
  A shallow embedding of \<^verbatim>\<open>source/blender/blenlib/intern/BLI_mempool.c\<close>.

  \<^item> A chunk is a block of the heap, named by a natural number; a pointer into the data
    of a chunk is a pair (block, byte offset), so \<^verbatim>\<open>CHUNK_DATA(chunk)\<close> is
    \<open>(chunk, 0)\<close> and \<^verbatim>\<open>addr += pool->esize\<close> adds to the offset. A pointer that may
    be \<^verbatim>\<open>NULL\<close> is an \<open>addr option\<close>.
  \<^item> The two fields of a \<^verbatim>\<open>BLI_freenode\<close> overlaid on a slot are kept in two partial
    maps of the heap; an address with no entry holds no initialised field.
  \<^item> The C type \<^verbatim>\<open>int\<close> is modelled by \<open>int\<close>; where the C arithmetic can leave
    the 32-bit range the model returns the error \<open>Overflow\<close>.
  \<^item> Every operation returns \<open>error + result\<close>: a dereference of \<^verbatim>\<open>NULL\<close>, an access
    outside an allocated chunk, a read of an uninitialised field and a failed assertion
    of a debug build are values of type \<open>error\<close>.
  \<^item> The list of chunks (\<^verbatim>\<open>ListBase chunks\<close>) is a list of block names, first chunk
    first.
  The build is the one the file compiles by default: \<^verbatim>\<open>USE_DATA_PTR\<close> and
  \<^verbatim>\<open>USE_TOTALLOC\<close> are not defined, the target is little endian with 8-byte pointers.
\<close>

subsection \<open>Errors\<close>

datatype error =
  NullDeref
  | BadAccess
  | UninitRead
  | Overflow
  | DivByZero
  | AssertFail
  | Misuse

definition bindE :: "'e + 'a \<Rightarrow> ('a \<Rightarrow> 'e + 'b) \<Rightarrow> 'e + 'b" where
  "bindE m f = (case m of Inl e \<Rightarrow> Inl e | Inr x \<Rightarrow> f x)"

subsection \<open>Machine constants\<close>

definition INT_MAX :: int where
  "INT_MAX = 2147483647"

definition INT_MIN :: int where
  "INT_MIN = - 2147483648"

definition int_ok :: "int \<Rightarrow> bool" where
  "int_ok x = (INT_MIN \<le> x \<and> x \<le> INT_MAX)"

text \<open>\<^verbatim>\<open>MAKE_ID(a, b, c, d)\<close>, the little endian variant.\<close>

definition MAKE_ID :: "int \<Rightarrow> int \<Rightarrow> int \<Rightarrow> int \<Rightarrow> int" where
  "MAKE_ID a b c d = (push_bit 24 d OR push_bit 16 c OR push_bit 8 b OR a)"

text \<open>\<^verbatim>\<open>#define FREEWORD MAKE_ID('f', 'r', 'e', 'e')\<close>\<close>

definition FREEWORD :: int where
  "FREEWORD = MAKE_ID 102 114 101 101"

text \<open>The tag \<^verbatim>\<open>0x7FFFFFFF\<close> that \<^verbatim>\<open>BLI_mempool_alloc\<close> writes into a slot it hands out.\<close>

definition USEDWORD :: int where
  "USEDWORD = 2147483647"

text \<open>\<^verbatim>\<open>sizeof(void *)\<close> and \<^verbatim>\<open>sizeof(BLI_freenode)\<close> (a pointer, an int, padding).\<close>

definition sizeof_ptr :: int where
  "sizeof_ptr = 8"

definition sizeof_freenode :: int where
  "sizeof_freenode = 16"

text \<open>\<^verbatim>\<open>#define MEMPOOL_ELEM_SIZE_MIN (sizeof(void *) * 2)\<close>\<close>

definition MEMPOOL_ELEM_SIZE_MIN :: int where
  "MEMPOOL_ELEM_SIZE_MIN = sizeof_ptr * 2"

text \<open>
  Modelled from the spec: the header \<^verbatim>\<open>BLI_mempool.h\<close> with the values of the flags is
  not among the sources. The spec names two options of a bit set, the backend choice
  (\<^verbatim>\<open>BLI_MEMPOOL_SYSMALLOC\<close>) and the iteration option (\<^verbatim>\<open>BLI_MEMPOOL_ALLOW_ITER\<close>);
  they are two distinct bits.
\<close>

definition BLI_MEMPOOL_SYSMALLOC :: int where
  "BLI_MEMPOOL_SYSMALLOC = 1"

definition BLI_MEMPOOL_ALLOW_ITER :: int where
  "BLI_MEMPOOL_ALLOW_ITER = 2"

subsection \<open>The heap\<close>

type_synonym addr = "nat \<times> int"

text \<open>
  \<open>blocks\<close> gives the size in bytes of the data area of every allocated chunk, \<open>brk\<close>
  is the name of the next block to hand out, \<open>node_next\<close> and \<open>node_freeword\<close> hold the
  fields \<^verbatim>\<open>next\<close> and \<^verbatim>\<open>freeword\<close> of the \<^verbatim>\<open>BLI_freenode\<close> written at an address.
\<close>

record heap =
  blocks :: "nat \<rightharpoonup> int"
  brk :: nat
  node_next :: "addr \<rightharpoonup> addr option"
  node_freeword :: "addr \<rightharpoonup> int"

definition empty_heap :: heap where
  "empty_heap = \<lparr>blocks = Map.empty, brk = 0, node_next = Map.empty, node_freeword = Map.empty\<rparr>"

text \<open>A \<^verbatim>\<open>BLI_freenode\<close> may be accessed at an address that lies, whole, in an allocated chunk.\<close>

definition valid_node :: "heap \<Rightarrow> addr \<Rightarrow> bool" where
  "valid_node h a =
     (case blocks h (fst a) of
        None \<Rightarrow> False
      | Some sz \<Rightarrow> 0 \<le> snd a \<and> snd a + sizeof_freenode \<le> sz)"

text \<open>\<^verbatim>\<open>p->next = v\<close>\<close>

definition set_next :: "addr option \<Rightarrow> addr option \<Rightarrow> heap \<Rightarrow> error + heap" where
  "set_next p v h =
     (case p of
        None \<Rightarrow> Inl NullDeref
      | Some a \<Rightarrow>
          if valid_node h a then Inr (h\<lparr>node_next := (node_next h)(a \<mapsto> v)\<rparr>)
          else Inl BadAccess)"

text \<open>\<^verbatim>\<open>p->next\<close>\<close>

definition get_next :: "addr option \<Rightarrow> heap \<Rightarrow> error + addr option" where
  "get_next p h =
     (case p of
        None \<Rightarrow> Inl NullDeref
      | Some a \<Rightarrow>
          if valid_node h a
          then (case node_next h a of None \<Rightarrow> Inl UninitRead | Some v \<Rightarrow> Inr v)
          else Inl BadAccess)"

text \<open>\<^verbatim>\<open>p->freeword = w\<close>\<close>

definition set_freeword :: "addr option \<Rightarrow> int \<Rightarrow> heap \<Rightarrow> error + heap" where
  "set_freeword p w h =
     (case p of
        None \<Rightarrow> Inl NullDeref
      | Some a \<Rightarrow>
          if valid_node h a then Inr (h\<lparr>node_freeword := (node_freeword h)(a \<mapsto> w)\<rparr>)
          else Inl BadAccess)"

text \<open>\<^verbatim>\<open>p->freeword\<close>\<close>

definition get_freeword :: "addr option \<Rightarrow> heap \<Rightarrow> error + int" where
  "get_freeword p h =
     (case p of
        None \<Rightarrow> Inl NullDeref
      | Some a \<Rightarrow>
          if valid_node h a
          then (case node_freeword h a of None \<Rightarrow> Inl UninitRead | Some w \<Rightarrow> Inr w)
          else Inl BadAccess)"

text \<open>
  \<^verbatim>\<open>malloc\<close> and \<^verbatim>\<open>MEM_mallocN\<close>: a block never handed out before, of the size asked
  for, with no field initialised. (The backend's failure to allocate is not modelled.)
\<close>

definition heap_alloc :: "int \<Rightarrow> heap \<Rightarrow> nat \<times> heap" where
  "heap_alloc sz h =
     (brk h,
      h\<lparr>blocks := (blocks h)(brk h \<mapsto> sz),
        brk := brk h + 1,
        node_next := (\<lambda>a. if fst a = brk h then None else node_next h a),
        node_freeword := (\<lambda>a. if fst a = brk h then None else node_freeword h a)\<rparr>)"

text \<open>\<^verbatim>\<open>free\<close> and \<^verbatim>\<open>MEM_freeN\<close>: the block and what was stored in it are gone.\<close>

definition heap_free :: "nat \<Rightarrow> heap \<Rightarrow> error + heap" where
  "heap_free b h =
     (case blocks h b of
        None \<Rightarrow> Inl BadAccess
      | Some sz \<Rightarrow>
          Inr (h\<lparr>blocks := (blocks h)(b := None),
                node_next := (\<lambda>a. if fst a = b then None else node_next h a),
                node_freeword := (\<lambda>a. if fst a = b then None else node_freeword h a)\<rparr>))"

subsection \<open>The pool\<close>

text \<open>\<^verbatim>\<open>struct BLI_mempool\<close>\<close>

record BLI_mempool =
  chunks :: "nat list"
  esize :: int
  csize :: int
  pchunk :: int
  flag :: int
  free :: "addr option"
  totused :: int

definition allow_iter :: "BLI_mempool \<Rightarrow> bool" where
  "allow_iter pool = ((flag pool AND BLI_MEMPOOL_ALLOW_ITER) \<noteq> 0)"

text \<open>
  Modelled from the spec: the list utility (\<^verbatim>\<open>BLI_listbase.h\<close>) is an external
  collaborator that appends a node to a list and removes a node from it.
\<close>

definition BLI_addtail :: "nat list \<Rightarrow> nat \<Rightarrow> nat list" where
  "BLI_addtail lb c = lb @ [c]"

definition BLI_remlink :: "nat list \<Rightarrow> nat \<Rightarrow> nat list" where
  "BLI_remlink lb c = remove1 c lb"

text \<open>\<^verbatim>\<open>mempool_chunk_alloc\<close>: both backends hand out \<^verbatim>\<open>csize\<close> bytes after the chunk header.\<close>

definition mempool_chunk_alloc :: "BLI_mempool \<Rightarrow> heap \<Rightarrow> nat \<times> heap" where
  "mempool_chunk_alloc pool h = heap_alloc (csize pool) h"

text \<open>
  The loop of \<^verbatim>\<open>mempool_chunk_add\<close>:
  \<^verbatim>\<open>for (addr = CHUNK_DATA(mpchunk), j = 0; j <= pchunk_last; j++) { ... }\<close>;
  it returns the last \<^verbatim>\<open>curnode\<close>.
\<close>

function chunk_add_loop ::
  "BLI_mempool \<Rightarrow> int \<Rightarrow> addr \<Rightarrow> int \<Rightarrow> addr option \<Rightarrow> heap \<Rightarrow> error + (addr option \<times> heap)" where
  "chunk_add_loop pool pchunk_last addr j curnode h =
     (if j \<le> pchunk_last then
        (let curnode' = Some addr;
             addr' = (fst addr, snd addr + esize pool)
         in case set_next curnode' (Some addr') h of
              Inl e \<Rightarrow> Inl e
            | Inr h1 \<Rightarrow>
                (case (if allow_iter pool then
                         bindE (if j \<noteq> pchunk_last
                                then bindE (get_next curnode' h1) (\<lambda>n. set_freeword n FREEWORD h1)
                                else Inr h1)
                           (\<lambda>h2. set_freeword curnode' FREEWORD h2)
                       else Inr h1) of
                   Inl e \<Rightarrow> Inl e
                 | Inr h3 \<Rightarrow> chunk_add_loop pool pchunk_last addr' (j + 1) curnode' h3))
      else Inr (curnode, h))"
  by pat_completeness auto
termination
  by (relation "measure (\<lambda>(pool, pchunk_last, addr, j, curnode, h). nat (pchunk_last + 1 - j))") auto

declare chunk_add_loop.simps [simp del]

text \<open>\<^verbatim>\<open>mempool_chunk_add(pool, mpchunk, lasttail)\<close>; it returns the last node of the chunk.\<close>

definition mempool_chunk_add ::
  "BLI_mempool \<Rightarrow> nat \<Rightarrow> addr option \<Rightarrow> heap \<Rightarrow> error + (addr option \<times> BLI_mempool \<times> heap)" where
  "mempool_chunk_add pool mpchunk lasttail h =
     (let pchunk_last = pchunk pool - 1;
          pool1 = pool\<lparr>chunks := BLI_addtail (chunks pool) mpchunk\<rparr>
      in bindE (if free pool1 = None then
                  (let pool2 = pool1\<lparr>free := Some (mpchunk, 0)\<rparr>
                   in if allow_iter pool2
                      then bindE (set_freeword (free pool2) FREEWORD h) (\<lambda>h'. Inr (pool2, h'))
                      else Inr (pool2, h))
                else Inr (pool1, h))
           (\<lambda>(pool2, h2).
              bindE (chunk_add_loop pool2 pchunk_last (mpchunk, 0) 0 None h2)
                (\<lambda>(curnode, h3).
                   bindE (set_next curnode None h3)
                     (\<lambda>h4.
                        bindE (if lasttail \<noteq> None then
                                 bindE (set_next lasttail (Some (mpchunk, 0)) h4)
                                   (\<lambda>h5. if allow_iter pool2
                                          then set_freeword lasttail FREEWORD h5
                                          else Inr h5)
                               else Inr h4)
                          (\<lambda>h6. Inr (curnode, pool2, h6))))))"

text \<open>\<^verbatim>\<open>mempool_chunk_free_all\<close>: every chunk of the list is given back, the list is emptied.\<close>

primrec free_chunks :: "nat list \<Rightarrow> heap \<Rightarrow> error + heap" where
  "free_chunks [] h = Inr h"
| "free_chunks (mpchunk # rest) h = bindE (heap_free mpchunk h) (free_chunks rest)"

definition mempool_chunk_free_all :: "BLI_mempool \<Rightarrow> heap \<Rightarrow> error + (BLI_mempool \<times> heap)" where
  "mempool_chunk_free_all pool h =
     bindE (free_chunks (chunks pool) h) (\<lambda>h'. Inr (pool\<lparr>chunks := []\<rparr>, h'))"

text \<open>The loop of \<^verbatim>\<open>BLI_mempool_create\<close> that allocates the chunks.\<close>

function create_loop ::
  "BLI_mempool \<Rightarrow> int \<Rightarrow> int \<Rightarrow> addr option \<Rightarrow> heap \<Rightarrow> error + (BLI_mempool \<times> heap)" where
  "create_loop pool maxchunks i lasttail h =
     (if i < maxchunks then
        (case mempool_chunk_alloc pool h of
           (mpchunk, h1) \<Rightarrow>
             (case mempool_chunk_add pool mpchunk lasttail h1 of
                Inl e \<Rightarrow> Inl e
              | Inr (curnode, pool', h2) \<Rightarrow> create_loop pool' maxchunks (i + 1) curnode h2))
      else Inr (pool, h))"
  by pat_completeness auto
termination
  by (relation "measure (\<lambda>(pool, maxchunks, i, lasttail, h). nat (maxchunks - i))") auto

declare create_loop.simps [simp del]

text \<open>
  \<^verbatim>\<open>BLI_mempool_create(esize, totelem, pchunk, flag)\<close>. The pool structure itself is the
  value returned; its own allocation is not modelled. \<^verbatim>\<open>/\<close> of C truncates, as
  \<open>sdiv\<close> does.
\<close>

definition BLI_mempool_create ::
  "int \<Rightarrow> int \<Rightarrow> int \<Rightarrow> int \<Rightarrow> heap \<Rightarrow> error + (BLI_mempool \<times> heap)" where
  "BLI_mempool_create esize0 totelem pchunk0 flag0 h =
     (let esize1 = (if esize0 < MEMPOOL_ELEM_SIZE_MIN then MEMPOOL_ELEM_SIZE_MIN else esize0);
          pool_esize = (if (flag0 AND BLI_MEMPOOL_ALLOW_ITER) \<noteq> 0
                        then max esize1 sizeof_freenode else esize1)
      in if \<not> int_ok (esize1 * pchunk0) then Inl Overflow
         else if pchunk0 = 0 then Inl DivByZero
         else if \<not> int_ok (totelem sdiv pchunk0) \<or> \<not> int_ok (totelem sdiv pchunk0 + 1)
         then Inl Overflow
         else
           (let pool = \<lparr>chunks = [], esize = pool_esize, csize = esize1 * pchunk0,
                        pchunk = pchunk0, flag = flag0, free = None, totused = 0\<rparr>;
                maxchunks = totelem sdiv pchunk0 + 1;
                maxchunks' = (if maxchunks = 0 then 1 else maxchunks)
            in create_loop pool maxchunks' 0 None h))"

text \<open>\<^verbatim>\<open>BLI_mempool_alloc(pool)\<close>; it returns \<^verbatim>\<open>retval\<close> and the pool and heap it leaves.\<close>

definition BLI_mempool_alloc ::
  "BLI_mempool \<Rightarrow> heap \<Rightarrow> error + (addr option \<times> BLI_mempool \<times> heap)" where
  "BLI_mempool_alloc pool h =
     (if \<not> int_ok (totused pool + 1) then Inl Overflow
      else
        (let pool1 = pool\<lparr>totused := totused pool + 1\<rparr>
         in bindE (if free pool1 = None then
                     (case mempool_chunk_alloc pool1 h of
                        (mpchunk, h1) \<Rightarrow>
                          bindE (mempool_chunk_add pool1 mpchunk None h1)
                            (\<lambda>(curnode, pool', h'). Inr (pool', h')))
                   else Inr (pool1, h))
              (\<lambda>(pool2, h2).
                 (let retval = free pool2
                  in bindE (if allow_iter pool2
                            then set_freeword (free pool2) USEDWORD h2
                            else Inr h2)
                       (\<lambda>h3.
                          bindE (get_next (free pool2) h3)
                            (\<lambda>n. Inr (retval, pool2\<lparr>free := n\<rparr>, h3)))))))"

text \<open>
  Modelled from the spec: the macro \<^verbatim>\<open>ARRAY_HAS_ITEM\<close> of \<^verbatim>\<open>BLI_utildefines.h\<close> is
  not among the sources; the debug check "verifies the reference falls within the byte
  range of some chunk currently owned by the pool".
\<close>

definition ARRAY_HAS_ITEM :: "addr option \<Rightarrow> addr \<Rightarrow> int \<Rightarrow> bool" where
  "ARRAY_HAS_ITEM item start tot =
     (case item of
        None \<Rightarrow> False
      | Some a \<Rightarrow> fst a = fst start \<and> 0 \<le> snd a - snd start \<and> snd a - snd start < tot)"

text \<open>
  The loop of the shrink path of \<^verbatim>\<open>BLI_mempool_free\<close>:
  \<^verbatim>\<open>for (tmpaddr = CHUNK_DATA(first), i = 0; i < pool->pchunk; i++) { ... }\<close>.
\<close>

function free_rethread_loop ::
  "BLI_mempool \<Rightarrow> addr \<Rightarrow> int \<Rightarrow> addr option \<Rightarrow> heap \<Rightarrow> error + (addr option \<times> heap)" where
  "free_rethread_loop pool tmpaddr i curnode h =
     (if i < pchunk pool then
        (let curnode' = Some tmpaddr;
             tmpaddr' = (fst tmpaddr, snd tmpaddr + esize pool)
         in case set_next curnode' (Some tmpaddr') h of
              Inl e \<Rightarrow> Inl e
            | Inr h1 \<Rightarrow> free_rethread_loop pool tmpaddr' (i + 1) curnode' h1)
      else Inr (curnode, h))"
  by pat_completeness auto
termination
  by (relation "measure (\<lambda>(pool, tmpaddr, i, curnode, h). nat (pchunk pool - i))") auto

declare free_rethread_loop.simps [simp del]

text \<open>
  \<^verbatim>\<open>BLI_mempool_free(pool, addr)\<close>. \<open>ndebug\<close> says whether \<^verbatim>\<open>NDEBUG\<close> is defined; when
  it is not, the two checks of the debug build are made and a failed one is the error
  \<open>AssertFail\<close>. A pool with no chunk has \<^verbatim>\<open>first == NULL\<close> on the shrink path, whose
  data the code then writes to: the error \<open>NullDeref\<close>.
\<close>

definition BLI_mempool_free ::
  "bool \<Rightarrow> BLI_mempool \<Rightarrow> addr option \<Rightarrow> heap \<Rightarrow> error + (BLI_mempool \<times> heap)" where
  "BLI_mempool_free ndebug pool addr h =
     (let newhead = addr
      in bindE (if \<not> ndebug then
                  (let found = list_ex (\<lambda>chunk. ARRAY_HAS_ITEM addr (chunk, 0) (csize pool))
                                 (chunks pool)
                   in if \<not> found then Inl AssertFail else Inr ())
                else Inr ())
           (\<lambda>u1.
              bindE (if allow_iter pool then
                       bindE (if \<not> ndebug then
                                bindE (get_freeword newhead h)
                                  (\<lambda>w. if w \<noteq> FREEWORD then Inr () else Inl AssertFail)
                              else Inr ())
                         (\<lambda>u2. set_freeword newhead FREEWORD h)
                     else Inr h)
                (\<lambda>h1.
                   bindE (set_next newhead (free pool) h1)
                     (\<lambda>h2.
                        if \<not> int_ok (totused pool - 1) then Inl Overflow
                        else
                          (let pool1 = pool\<lparr>free := newhead, totused := totused pool - 1\<rparr>
                           in if totused pool1 = 0 then
                                (case chunks pool1 of
                                   [] \<Rightarrow> Inl NullDeref
                                 | first # others \<Rightarrow>
                                     (let pool2 = pool1\<lparr>chunks := BLI_remlink (chunks pool1) first\<rparr>
                                      in bindE (mempool_chunk_free_all pool2 h2)
                                           (\<lambda>(pool3, h3).
                                              (let pool4 = pool3\<lparr>chunks := BLI_addtail (chunks pool3) first\<rparr>;
                                                   pool5 = pool4\<lparr>free := Some (first, 0)\<rparr>
                                               in bindE (free_rethread_loop pool5 (first, 0) 0 None h3)
                                                    (\<lambda>(curnode, h4).
                                                       bindE (set_next curnode None h4)
                                                         (\<lambda>h5. Inr (pool5, h5)))))))
                              else Inr (pool1, h2))))))"

text \<open>\<^verbatim>\<open>BLI_mempool_count(pool)\<close>\<close>

definition BLI_mempool_count :: "BLI_mempool \<Rightarrow> int" where
  "BLI_mempool_count pool = totused pool"

subsection \<open>Iteration\<close>

text \<open>
  \<^verbatim>\<open>BLI_mempool_iter\<close>: the pool is passed beside the iterator; \<^verbatim>\<open>curchunk\<close>, a pointer
  into the list of chunks, is the part of the list it heads (\<^verbatim>\<open>NULL\<close> is the empty
  list, \<^verbatim>\<open>curchunk->next\<close> the tail).
\<close>

record BLI_mempool_iter =
  curchunk :: "nat list"
  curindex :: int

text \<open>\<^verbatim>\<open>BLI_mempool_iternew(pool, iter)\<close>\<close>

definition BLI_mempool_iternew :: "bool \<Rightarrow> BLI_mempool \<Rightarrow> error + BLI_mempool_iter" where
  "BLI_mempool_iternew ndebug pool =
     (if \<not> ndebug \<and> \<not> allow_iter pool then Inl AssertFail
      else Inr \<lparr>curchunk = chunks pool, curindex = 0\<rparr>)"

text \<open>The number of slots an iterator has still to visit bounds the steps it can make.\<close>

definition iter_measure :: "BLI_mempool \<Rightarrow> BLI_mempool_iter \<Rightarrow> nat" where
  "iter_measure pool iter =
     length (curchunk iter) * (nat (pchunk pool) + 1) + nat (pchunk pool - curindex iter)"

text \<open>The \<^verbatim>\<open>do { ... } while (ret->freeword == FREEWORD)\<close> of \<^verbatim>\<open>BLI_mempool_iterstep\<close>.\<close>

function iterstep_loop ::
  "BLI_mempool \<Rightarrow> heap \<Rightarrow> BLI_mempool_iter \<Rightarrow> error + (addr option \<times> BLI_mempool_iter)" where
  "iterstep_loop pool h iter =
     (case curchunk iter of
        [] \<Rightarrow> Inr (None, iter)
      | c # rest \<Rightarrow>
          if \<not> int_ok (esize pool * curindex iter) \<or> \<not> int_ok (curindex iter + 1)
          then Inl Overflow
          else
            (let ret = Some (c, esize pool * curindex iter);
                 iter' = (if curindex iter + 1 \<ge> pchunk pool
                          then \<lparr>curchunk = rest, curindex = 0\<rparr>
                          else \<lparr>curchunk = c # rest, curindex = curindex iter + 1\<rparr>)
             in case get_freeword ret h of
                  Inl e \<Rightarrow> Inl e
                | Inr w \<Rightarrow> if w = FREEWORD then iterstep_loop pool h iter' else Inr (ret, iter')))"
  by pat_completeness auto
termination
  by (relation "measure (\<lambda>(pool, h, iter). iter_measure pool iter)")
    (auto simp: iter_measure_def)

declare iterstep_loop.simps [simp del]

text \<open>\<^verbatim>\<open>BLI_mempool_iterstep(iter)\<close>; it returns the element, or \<^verbatim>\<open>NULL\<close>, and the iterator.\<close>

definition BLI_mempool_iterstep ::
  "BLI_mempool \<Rightarrow> heap \<Rightarrow> BLI_mempool_iter \<Rightarrow> error + (addr option \<times> BLI_mempool_iter)" where
  "BLI_mempool_iterstep pool h iter =
     (if totused pool = 0 then Inr (None, iter) else iterstep_loop pool h iter)"

lemma iterstep_loop_advances:
  "iterstep_loop pool h iter = Inr (Some a, iter') \<Longrightarrow>
   iter_measure pool iter' < iter_measure pool iter"
proof (induction pool h iter rule: iterstep_loop.induct)
  case (1 pool h iter)
  show ?case
  proof (cases "curchunk iter")
    case Nil
    with "1.prems" show ?thesis by (simp add: iterstep_loop.simps [of pool h iter])
  next
    case (Cons c rest)
    define nxt where "nxt = (if curindex iter + 1 \<ge> pchunk pool
                          then \<lparr>curchunk = rest, curindex = 0\<rparr>
                          else \<lparr>curchunk = c # rest, curindex = curindex iter + 1\<rparr>)"
    have less: "iter_measure pool nxt < iter_measure pool iter"
      using Cons by (auto simp: nxt_def iter_measure_def)
    from "1.prems" Cons have ok: "int_ok (esize pool * curindex iter)" "int_ok (curindex iter + 1)"
      by (auto simp: iterstep_loop.simps [of pool h iter] split: if_splits)
    from "1.prems" Cons ok obtain w where
      w: "get_freeword (Some (c, esize pool * curindex iter)) h = Inr w"
      by (auto simp: iterstep_loop.simps [of pool h iter] Let_def split: sum.splits)
    show ?thesis
    proof (cases "w = FREEWORD")
      case True
      with "1.prems" Cons ok w have "iterstep_loop pool h nxt = Inr (Some a, iter')"
        by (simp add: iterstep_loop.simps [of pool h iter] Let_def nxt_def)
      with "1.IH" [OF Cons _ refl refl w True] ok less show ?thesis
        by (simp add: nxt_def)
    next
      case False
      with "1.prems" Cons ok w have "iter' = nxt"
        by (simp add: iterstep_loop.simps [of pool h iter] Let_def nxt_def)
      with less show ?thesis by simp
    qed
  qed
qed

text \<open>
  The loop of \<^verbatim>\<open>BLI_mempool_as_table\<close>:
  \<^verbatim>\<open>while ((elem = BLI_mempool_iterstep(&iter))) { *p++ = elem; }\<close>;
  the table written is the list returned.
\<close>

function as_table_loop :: "BLI_mempool \<Rightarrow> heap \<Rightarrow> BLI_mempool_iter \<Rightarrow> error + addr list" where
  "as_table_loop pool h iter =
     (case BLI_mempool_iterstep pool h iter of
        Inl e \<Rightarrow> Inl e
      | Inr (elem, iter') \<Rightarrow>
          (case elem of
             None \<Rightarrow> Inr []
           | Some a \<Rightarrow>
               (case as_table_loop pool h iter' of
                  Inl e \<Rightarrow> Inl e
                | Inr data \<Rightarrow> Inr (a # data))))"
  by pat_completeness auto
termination
proof (relation "measure (\<lambda>(pool, h, iter). iter_measure pool iter)")
  show "wf (measure (\<lambda>(pool, h, iter). iter_measure pool iter))" by simp
next
  fix pool h iter x2 elem iter' a
  assume "BLI_mempool_iterstep pool h iter = Inr x2" "(elem, iter') = x2" "elem = Some a"
  then have "iterstep_loop pool h iter = Inr (Some a, iter')"
    by (auto simp: BLI_mempool_iterstep_def split: if_splits)
  then show "((pool, h, iter'), (pool, h, iter)) \<in> measure (\<lambda>(pool, h, iter). iter_measure pool iter)"
    by (simp add: iterstep_loop_advances)
qed

declare as_table_loop.simps [simp del]

text \<open>
  \<^verbatim>\<open>BLI_mempool_as_table(pool, data)\<close>, with the two assertions of the debug build.
\<close>

definition BLI_mempool_as_table :: "bool \<Rightarrow> BLI_mempool \<Rightarrow> heap \<Rightarrow> error + addr list" where
  "BLI_mempool_as_table ndebug pool h =
     (if \<not> ndebug \<and> \<not> allow_iter pool then Inl AssertFail
      else
        bindE (BLI_mempool_iternew ndebug pool)
          (\<lambda>iter.
             bindE (as_table_loop pool h iter)
               (\<lambda>data. if \<not> ndebug \<and> int (length data) \<noteq> totused pool
                        then Inl AssertFail else Inr data)))"

text \<open>
  The loop of \<^verbatim>\<open>BLI_mempool_findelem\<close>:
  \<^verbatim>\<open>for (elem = step(&iter); index-- != 0; elem = step(&iter)) { }\<close>,
  entered with the first element already read.
\<close>

function findelem_loop ::
  "BLI_mempool \<Rightarrow> heap \<Rightarrow> int \<Rightarrow> addr option \<Rightarrow> BLI_mempool_iter \<Rightarrow> error + addr option" where
  "findelem_loop pool h index elem iter =
     (if index \<noteq> 0 then
        (if \<not> int_ok (index - 1) then Inl Overflow
         else
           (case BLI_mempool_iterstep pool h iter of
              Inl e \<Rightarrow> Inl e
            | Inr (elem', iter') \<Rightarrow> findelem_loop pool h (index - 1) elem' iter'))
      else Inr elem)"
  by pat_completeness auto
termination
  by (relation "measure (\<lambda>(pool, h, index, elem, iter). nat (index - INT_MIN))")
    (auto simp: int_ok_def)

declare findelem_loop.simps [simp del]

text \<open>\<^verbatim>\<open>BLI_mempool_findelem(pool, index)\<close>\<close>

definition BLI_mempool_findelem :: "bool \<Rightarrow> BLI_mempool \<Rightarrow> heap \<Rightarrow> int \<Rightarrow> error + addr option" where
  "BLI_mempool_findelem ndebug pool h index =
     (if \<not> ndebug \<and> \<not> allow_iter pool then Inl AssertFail
      else if index \<ge> 0 \<and> index < totused pool then
        bindE (BLI_mempool_iternew ndebug pool)
          (\<lambda>iter.
             bindE (BLI_mempool_iterstep pool h iter)
               (\<lambda>(elem, iter'). findelem_loop pool h index elem iter'))
      else Inr None)"

subsection \<open>Clearing\<close>

text \<open>
  \<^verbatim>\<open>BLI_mempool_clear(pool)\<close>. With no chunk, \<^verbatim>\<open>first\<close> is \<^verbatim>\<open>NULL\<close> and
  \<^verbatim>\<open>mempool_chunk_add\<close> writes to it: the error \<open>NullDeref\<close>.
\<close>

definition BLI_mempool_clear :: "BLI_mempool \<Rightarrow> heap \<Rightarrow> error + (BLI_mempool \<times> heap)" where
  "BLI_mempool_clear pool h =
     (case chunks pool of
        [] \<Rightarrow> Inl NullDeref
      | first # others \<Rightarrow>
          (let pool1 = pool\<lparr>chunks := BLI_remlink (chunks pool) first\<rparr>
           in bindE (mempool_chunk_free_all pool1 h)
                (\<lambda>(pool2, h1).
                   (let pool3 = pool2\<lparr>totused := 0\<rparr>;
                        pool4 = pool3\<lparr>free := None\<rparr>
                    in bindE (mempool_chunk_add pool4 first None h1)
                         (\<lambda>(curnode, pool5, h2). Inr (pool5, h2))))))"

subsection \<open>A client of the pool\<close>

text \<open>
  A client allocates, frees a reference it holds, or clears the pool. The list beside the
  pool and the heap holds the live references: those \<^verbatim>\<open>BLI_mempool_alloc\<close> returned and
  the client has not freed since (clearing gives all of them up). Freeing anything else is
  outside the contract of \<^verbatim>\<open>BLI_mempool_free\<close> ("doesnt protect against double frees");
  the client model stops there with the error \<open>Misuse\<close>.
\<close>

datatype op = Alloc | Free addr | Clear

type_synonym client_state = "BLI_mempool \<times> heap \<times> addr list"

fun step :: "bool \<Rightarrow> op \<Rightarrow> client_state \<Rightarrow> error + client_state" where
  "step ndebug Alloc (pool, h, live) =
     bindE (BLI_mempool_alloc pool h)
       (\<lambda>(retval, pool', h').
          case retval of
            None \<Rightarrow> Inl NullDeref
          | Some a \<Rightarrow> Inr (pool', h', live @ [a]))"
| "step ndebug (Free a) (pool, h, live) =
     (if a \<in> set live then
        bindE (BLI_mempool_free ndebug pool (Some a) h)
          (\<lambda>(pool', h'). Inr (pool', h', remove1 a live))
      else Inl Misuse)"
| "step ndebug Clear (pool, h, live) =
     bindE (BLI_mempool_clear pool h) (\<lambda>(pool', h'). Inr (pool', h', []))"

fun run :: "bool \<Rightarrow> op list \<Rightarrow> client_state \<Rightarrow> error + client_state" where
  "run ndebug [] st = Inr st"
| "run ndebug (x # xs) st = bindE (step ndebug x st) (run ndebug xs)"

text \<open>A session: a pool is created, then the client runs.\<close>

definition session ::
  "int \<Rightarrow> int \<Rightarrow> int \<Rightarrow> int \<Rightarrow> heap \<Rightarrow> bool \<Rightarrow> op list \<Rightarrow> error + client_state" where
  "session esize0 totelem pchunk0 flag0 h0 ndebug ops =
     bindE (BLI_mempool_create esize0 totelem pchunk0 flag0 h0)
       (\<lambda>(pool, h). run ndebug ops (pool, h, []))"

definition succeeds :: "'e + 'a \<Rightarrow> bool" where
  "succeeds r = (case r of Inl e \<Rightarrow> False | Inr x \<Rightarrow> True)"

fun is_free :: "op \<Rightarrow> bool" where
  "is_free (Free a) = True"
| "is_free Alloc = False"
| "is_free Clear = False"

subsection \<open>Slots and the free list\<close>

text \<open>The addresses of the slots \<open>j\<close>, ..., \<open>n - 1\<close> of chunk \<open>c\<close>, for elements of \<open>e\<close> bytes.\<close>

definition slot_set :: "int \<Rightarrow> nat \<Rightarrow> nat \<Rightarrow> nat \<Rightarrow> addr set" where
  "slot_set e c j n = (\<lambda>k. (c, e * int k)) ` {j..<n}"

text \<open>The heap once the loop of \<^verbatim>\<open>mempool_chunk_add\<close> has run over the slots \<open>j\<close>, ..., \<open>n - 1\<close>.\<close>

definition thread_heap :: "int \<Rightarrow> bool \<Rightarrow> nat \<Rightarrow> nat \<Rightarrow> nat \<Rightarrow> heap \<Rightarrow> heap" where
  "thread_heap e it c j n h =
     h\<lparr>node_next := (\<lambda>a. if a \<in> slot_set e c j n
                          then Some (Some (fst a, snd a + e)) else node_next h a),
       node_freeword := (\<lambda>a. if it \<and> a \<in> slot_set e c j n
                              then Some FREEWORD else node_freeword h a)\<rparr>"

text \<open>The heap that \<^verbatim>\<open>mempool_chunk_add\<close> leaves.\<close>

definition chunk_heap :: "int \<Rightarrow> bool \<Rightarrow> nat \<Rightarrow> nat \<Rightarrow> addr option \<Rightarrow> heap \<Rightarrow> heap" where
  "chunk_heap e it c n lasttail h =
     h\<lparr>node_next := (\<lambda>a. if a \<in> slot_set e c 0 n
                          then (if a = (c, e * (int n - 1)) then Some None
                                else Some (Some (fst a, snd a + e)))
                          else if Some a = lasttail then Some (Some (c, 0))
                          else node_next h a),
       node_freeword := (\<lambda>a. if it \<and> (a \<in> slot_set e c 0 n \<or> Some a = lasttail)
                              then Some FREEWORD else node_freeword h a)\<rparr>"

text \<open>The free list: \<open>fl_seg nx p as q\<close> says that following \<^verbatim>\<open>next\<close> from \<open>p\<close> visits the nodes \<open>as\<close>, in this order, and arrives at \<open>q\<close>.\<close>

primrec fl_seg :: "(addr \<rightharpoonup> addr option) \<Rightarrow> addr option \<Rightarrow> addr list \<Rightarrow> addr option \<Rightarrow> bool" where
  "fl_seg nx p [] q = (p = q)"
| "fl_seg nx p (a # as) q =
     (p = Some a \<and> (case nx a of None \<Rightarrow> False | Some r \<Rightarrow> fl_seg nx r as q))"

text \<open>The slots \<open>j\<close>, ..., \<open>n - 1\<close> of a chunk, in slot order.\<close>

definition slots :: "int \<Rightarrow> nat \<Rightarrow> nat \<Rightarrow> nat \<Rightarrow> addr list" where
  "slots e c j n = map (\<lambda>k. (c, e * int k)) [j..<n]"

text \<open>The slots of a chunk of the pool, in slot order.\<close>

definition chunk_slots :: "BLI_mempool \<Rightarrow> nat \<Rightarrow> addr list" where
  "chunk_slots pool c = slots (esize pool) c 0 (nat (pchunk pool))"

text \<open>Every slot of the pool: chunk after chunk in the order of the chunk list, and in slot order within a chunk.\<close>

definition all_slots :: "BLI_mempool \<Rightarrow> addr list" where
  "all_slots pool = concat (map (chunk_slots pool) (chunks pool))"

subsection \<open>The invariant of the pool\<close>

text \<open>The configuration of a pool that \<^verbatim>\<open>BLI_mempool_create\<close> made from a positive \<^verbatim>\<open>pchunk\<close>.\<close>

definition pool_cfg :: "BLI_mempool \<Rightarrow> bool" where
  "pool_cfg pool \<longleftrightarrow>
     1 \<le> pchunk pool \<and> sizeof_freenode \<le> esize pool \<and>
     csize pool = esize pool * pchunk pool \<and> csize pool \<le> INT_MAX"

text \<open>The chunks of the pool are distinct allocated blocks of \<^verbatim>\<open>csize\<close> bytes.\<close>

definition pool_heap :: "BLI_mempool \<Rightarrow> heap \<Rightarrow> bool" where
  "pool_heap pool h \<longleftrightarrow>
     distinct (chunks pool) \<and>
     (\<forall>c \<in> set (chunks pool). blocks h c = Some (csize pool) \<and> c < brk h)"

text \<open>The invariant of the pool, for live references \<open>live\<close> and free list \<open>fl\<close>: every slot is either on the free list or live, the live count is the number of live references, and with iteration enabled the free slots carry \<open>FREEWORD\<close> and the live ones the tag of allocation.\<close>

definition pool_inv_fl :: "BLI_mempool \<Rightarrow> heap \<Rightarrow> addr list \<Rightarrow> addr list \<Rightarrow> bool" where
  "pool_inv_fl pool h live fl \<longleftrightarrow>
     pool_cfg pool \<and> pool_heap pool h \<and> chunks pool \<noteq> [] \<and>
     totused pool = int (length live) \<and> totused pool \<le> INT_MAX \<and> distinct live \<and>
     fl_seg (node_next h) (free pool) fl None \<and> distinct fl \<and>
     set fl \<inter> set live = {} \<and> set fl \<union> set live = set (all_slots pool) \<and>
     (allow_iter pool \<longrightarrow>
        (\<forall>a \<in> set fl. node_freeword h a = Some FREEWORD) \<and>
        (\<forall>a \<in> set live. node_freeword h a = Some USEDWORD))"

text \<open>The invariant, for some free list.\<close>

definition pool_inv :: "BLI_mempool \<Rightarrow> heap \<Rightarrow> addr list \<Rightarrow> bool" where
  "pool_inv pool h live \<longleftrightarrow> (\<exists>fl. pool_inv_fl pool h live fl)"

subsection \<open>The heaps the operations leave\<close>

text \<open>The heap after \<^verbatim>\<open>BLI_mempool_alloc\<close> has added a chunk.\<close>

definition grown_heap :: "BLI_mempool \<Rightarrow> heap \<Rightarrow> heap" where
  "grown_heap pool h =
     chunk_heap (esize pool) (allow_iter pool) (brk h) (nat (pchunk pool)) None
       (snd (heap_alloc (csize pool) h))"

text \<open>The heap after the chunks \<open>cs\<close> have been given back.\<close>

definition release_heap :: "nat list \<Rightarrow> heap \<Rightarrow> heap" where
  "release_heap cs h =
     h\<lparr>blocks := (\<lambda>b. if b \<in> set cs then None else blocks h b),
       node_next := (\<lambda>a. if fst a \<in> set cs then None else node_next h a),
       node_freeword := (\<lambda>a. if fst a \<in> set cs then None else node_freeword h a)\<rparr>"

text \<open>The heap after a free: the tag (when iteration is enabled), then the link.\<close>

definition freed_heap :: "BLI_mempool \<Rightarrow> addr \<Rightarrow> heap \<Rightarrow> heap" where
  "freed_heap pool a h =
     (if allow_iter pool then h\<lparr>node_freeword := (node_freeword h)(a \<mapsto> FREEWORD)\<rparr> else h)
       \<lparr>node_next := (node_next h)(a \<mapsto> free pool)\<rparr>"

text \<open>The heap after the shrink path: the other chunks released, the first one threaded again.\<close>

definition shrunk_heap :: "BLI_mempool \<Rightarrow> nat \<Rightarrow> nat list \<Rightarrow> heap \<Rightarrow> heap" where
  "shrunk_heap pool first others h =
     (let h3 = thread_heap (esize pool) False first 0 (nat (pchunk pool)) (release_heap others h)
      in h3\<lparr>node_next := (node_next h3)((first, esize pool * (pchunk pool - 1)) \<mapsto> None)\<rparr>)"

text \<open>The heap that \<^verbatim>\<open>BLI_mempool_clear\<close> leaves.\<close>

definition cleared_heap :: "BLI_mempool \<Rightarrow> nat \<Rightarrow> nat list \<Rightarrow> heap \<Rightarrow> heap" where
  "cleared_heap pool first others h =
     chunk_heap (esize pool) (allow_iter pool) first (nat (pchunk pool)) None (release_heap others h)"

text \<open>What holds between two rounds of the loop of \<^verbatim>\<open>BLI_mempool_create\<close>.\<close>

definition create_inv :: "BLI_mempool \<Rightarrow> heap \<Rightarrow> addr option \<Rightarrow> bool" where
  "create_inv pool h lasttail \<longleftrightarrow>
     pool_cfg pool \<and> pool_heap pool h \<and> totused pool = 0 \<and>
     fl_seg (node_next h) (free pool) (all_slots pool) None \<and>
     (allow_iter pool \<longrightarrow> (\<forall>a \<in> set (all_slots pool). node_freeword h a = Some FREEWORD)) \<and>
     (if chunks pool = [] then free pool = None \<and> lasttail = None
      else lasttail = Some (last (chunks pool), esize pool * (pchunk pool - 1)))"

text \<open>The heap after one round of the loop of \<^verbatim>\<open>BLI_mempool_create\<close>.\<close>

definition added_heap :: "BLI_mempool \<Rightarrow> addr option \<Rightarrow> heap \<Rightarrow> heap" where
  "added_heap pool lasttail h =
     chunk_heap (esize pool) (allow_iter pool) (brk h) (nat (pchunk pool)) lasttail
       (snd (heap_alloc (csize pool) h))"

text \<open>Two pools with the same configuration.\<close>

definition same_cfg :: "BLI_mempool \<Rightarrow> BLI_mempool \<Rightarrow> bool" where
  "same_cfg pool pool' \<longleftrightarrow>
     esize pool' = esize pool \<and> pchunk pool' = pchunk pool \<and> flag pool' = flag pool \<and>
     csize pool' = csize pool"

subsection \<open>Observations of a session\<close>

text \<open>A property of the state a session ends in; false when the session fails.\<close>

definition holds_after :: "error + client_state \<Rightarrow> (BLI_mempool \<Rightarrow> heap \<Rightarrow> addr list \<Rightarrow> bool) \<Rightarrow> bool" where
  "holds_after r P = (case r of Inl e \<Rightarrow> False | Inr (pool, h, live) \<Rightarrow> P pool h live)"

text \<open>The chunks a pool has right after its creation.\<close>

definition created_chunks :: "int \<Rightarrow> int \<Rightarrow> int \<Rightarrow> int \<Rightarrow> heap \<Rightarrow> error + nat list" where
  "created_chunks esize0 totelem pchunk0 flag0 h0 =
     (case BLI_mempool_create esize0 totelem pchunk0 flag0 h0 of
        Inl e \<Rightarrow> Inl e
      | Inr (pool, h) \<Rightarrow> Inr (chunks pool))"

text \<open>
  The number of chunks in the words of the specification:
  "chunksNeeded = ceil(initialElementEstimate / elementsPerChunk), minimum 1".
\<close>

definition chunksNeeded_spec :: "int \<Rightarrow> int \<Rightarrow> int" where
  "chunksNeeded_spec totelem pchunk0 = max (- ((- totelem) div pchunk0)) 1"

text \<open>What a session ends with: its chunk list, the size of a block, the next block name.\<close>

definition final_chunks :: "error + client_state \<Rightarrow> nat list option" where
  "final_chunks r = (case r of Inl e \<Rightarrow> None | Inr (pool, h, live) \<Rightarrow> Some (chunks pool))"

definition final_block :: "error + client_state \<Rightarrow> nat \<Rightarrow> int option" where
  "final_block r c = (case r of Inl e \<Rightarrow> None | Inr (pool, h, live) \<Rightarrow> blocks h c)"

definition final_brk :: "error + client_state \<Rightarrow> nat option" where
  "final_brk r = (case r of Inl e \<Rightarrow> None | Inr (pool, h, live) \<Rightarrow> Some (brk h))"

subsection \<open>The state of an iterator\<close>

text \<open>The slots an iterator has still to visit, in the order it visits them.\<close>

definition iter_rest :: "BLI_mempool \<Rightarrow> BLI_mempool_iter \<Rightarrow> addr list" where
  "iter_rest pool iter =
     (case curchunk iter of
        [] \<Rightarrow> []
      | c # rest \<Rightarrow>
          slots (esize pool) c (nat (curindex iter)) (nat (pchunk pool)) @
          concat (map (chunk_slots pool) rest))"

text \<open>An iterator of the pool: it stands in a chunk of the pool, at a slot of that chunk.\<close>

definition iter_ok :: "BLI_mempool \<Rightarrow> BLI_mempool_iter \<Rightarrow> bool" where
  "iter_ok pool iter \<longleftrightarrow>
     set (curchunk iter) \<subseteq> set (chunks pool) \<and>
     (curchunk iter \<noteq> [] \<longrightarrow> 0 \<le> curindex iter \<and> curindex iter < pchunk pool)"

text \<open>What iteration relies on: every slot of the pool carries a tag.\<close>

definition iter_ctx :: "BLI_mempool \<Rightarrow> heap \<Rightarrow> bool" where
  "iter_ctx pool h \<longleftrightarrow>
     pool_cfg pool \<and> pool_heap pool h \<and>
     (\<forall>a \<in> set (all_slots pool). node_freeword h a \<noteq> None)"

section \<open>Basic facts\<close>

lemma bindE_simps [simp]:
  "bindE (Inl e) f = Inl e"
  "bindE (Inr x) f = f x"
  by (simp_all add: bindE_def)

lemma bindE_InrE:
  assumes "bindE m f = Inr y"
  obtains x where "m = Inr x" "f x = Inr y"
  using assms by (cases m) simp_all

lemma succeeds_Inr:
  assumes "succeeds r"
  obtains x where "r = Inr x"
  using assms by (cases r) (simp_all add: succeeds_def)

lemma sessionE:
  assumes "session esize0 totelem pchunk0 flag0 h0 ndebug ops = Inr st"
  obtains pool0 h1 where
    "BLI_mempool_create esize0 totelem pchunk0 flag0 h0 = Inr (pool0, h1)"
    "run ndebug ops (pool0, h1, []) = Inr st"
  using assms unfolding session_def by (auto elim!: bindE_InrE)

lemma chunk_add_fields:
  assumes "mempool_chunk_add pool c lt h = Inr (cur, pool', h')"
  shows "pool' = pool\<lparr>chunks := chunks pool @ [c],
                       free := (if free pool = None then Some (c, 0) else free pool)\<rparr>"
  using assms
  unfolding mempool_chunk_add_def Let_def BLI_addtail_def
  apply (elim bindE_InrE)
  apply (simp split: if_splits prod.splits)
   apply (auto elim!: bindE_InrE)
  done

subsection \<open>The live count\<close>

lemma alloc_totused:
  assumes "BLI_mempool_alloc pool h = Inr (r, pool', h')"
  shows "totused pool' = totused pool + 1"
  using assms
  unfolding BLI_mempool_alloc_def Let_def mempool_chunk_alloc_def
  by (auto elim!: bindE_InrE split: if_splits prod.splits dest!: chunk_add_fields)

lemma free_totused:
  assumes "BLI_mempool_free nd pool p h = Inr (pool', h')"
  shows "totused pool' = totused pool - 1"
  using assms
  unfolding BLI_mempool_free_def Let_def mempool_chunk_free_all_def
  by (auto elim!: bindE_InrE split: if_splits prod.splits list.splits)

lemma create_loop_totused:
  "create_loop pool maxchunks i lt h = Inr (pool', h') \<Longrightarrow> totused pool' = totused pool"
proof (induction pool maxchunks i lt h rule: create_loop.induct)
  case (1 pool maxchunks i lasttail h)
  show ?case
  proof (cases "i < maxchunks")
    case False
    with "1.prems" show ?thesis by (simp add: create_loop.simps [of pool maxchunks i])
  next
    case True
    obtain c h1 where a: "mempool_chunk_alloc pool h = (c, h1)" by force
    from "1.prems" True a obtain cur pool1 h2 where
      b: "mempool_chunk_add pool c lasttail h1 = Inr (cur, pool1, h2)" and
      c: "create_loop pool1 maxchunks (i + 1) cur h2 = Inr (pool', h')"
      by (auto simp: create_loop.simps [of pool maxchunks i] split: sum.splits)
    from "1.IH" [OF True a [symmetric] b refl refl c] chunk_add_fields [OF b]
    show ?thesis by simp
  qed
qed

lemma create_totused:
  assumes "BLI_mempool_create esize0 totelem pchunk0 flag0 h0 = Inr (pool, h)"
  shows "totused pool = 0"
  using assms unfolding BLI_mempool_create_def Let_def
  by (auto split: if_splits dest!: create_loop_totused)

lemma run_totused:
  "run ndebug ops (pool, h, live) = Inr (pool', h', live') \<Longrightarrow> Clear \<notin> set ops \<Longrightarrow>
   totused pool' = totused pool + int (count_list ops Alloc) - int (length (filter is_free ops))"
proof (induction ops arbitrary: pool h live)
  case Nil
  then show ?case by simp
next
  case (Cons x xs)
  from Cons.prems(1) obtain pool1 h1 live1 where
    s: "step ndebug x (pool, h, live) = Inr (pool1, h1, live1)" and
    r: "run ndebug xs (pool1, h1, live1) = Inr (pool', h', live')"
    by (auto elim!: bindE_InrE)
  from Cons.prems(2) have nc: "Clear \<notin> set xs" by simp
  note ih = Cons.IH [OF r nc]
  show ?case
  proof (cases x)
    case Alloc
    with s have "totused pool1 = totused pool + 1"
      by (auto elim!: bindE_InrE split: option.splits dest: alloc_totused)
    with ih Alloc show ?thesis by simp
  next
    case (Free a)
    with s have "totused pool1 = totused pool - 1"
      by (auto elim!: bindE_InrE split: if_splits dest: free_totused)
    with ih Free show ?thesis by simp
  next
    case Clear
    with Cons.prems(2) show ?thesis by simp
  qed
qed

subsection \<open>The heap operations and the loops\<close>

lemma valid_node_blocks: "blocks h' = blocks h \<Longrightarrow> valid_node h' a = valid_node h a"
  by (simp add: valid_node_def)

lemma set_next_ok:
  "valid_node h a \<Longrightarrow> set_next (Some a) v h = Inr (h\<lparr>node_next := (node_next h)(a \<mapsto> v)\<rparr>)"
  by (simp add: set_next_def)

lemma set_freeword_ok:
  "valid_node h a \<Longrightarrow> set_freeword (Some a) w h = Inr (h\<lparr>node_freeword := (node_freeword h)(a \<mapsto> w)\<rparr>)"
  by (simp add: set_freeword_def)

lemma get_next_ok:
  "valid_node h a \<Longrightarrow> node_next h a = Some v \<Longrightarrow> get_next (Some a) h = Inr v"
  by (simp add: get_next_def)

lemma valid_node_upd [simp]:
  "valid_node (h\<lparr>node_next := x\<rparr>) a = valid_node h a"
  "valid_node (h\<lparr>node_freeword := y\<rparr>) a = valid_node h a"
  by (simp_all add: valid_node_def)

lemma slot_set_empty [simp]: "slot_set e c n n = {}"
  by (simp add: slot_set_def)

lemma slot_set_step: "j < n \<Longrightarrow> slot_set e c j n = insert (c, e * int j) (slot_set e c (Suc j) n)"
proof -
  assume "j < n"
  then have "{j..<n} = insert j {Suc j..<n}" by auto
  then show ?thesis by (simp add: slot_set_def)
qed

lemma slot_bound:
  assumes "0 \<le> e" "k < n"
  shows "e * int k + e \<le> e * int n"
proof -
  have "e * (int k + 1) \<le> e * int n" using assms by (intro mult_left_mono) auto
  then show ?thesis by (simp add: algebra_simps)
qed

lemma slot_valid:
  assumes "blocks h c = Some sz" "sizeof_freenode \<le> e" "e * int n \<le> sz" "k < n"
  shows "valid_node h (c, e * int k)"
proof -
  have e: "0 \<le> e" using assms(2) by (simp add: sizeof_freenode_def)
  from slot_bound [OF e assms(4)] assms(2,3) have "e * int k + sizeof_freenode \<le> sz" by linarith
  moreover have "0 \<le> e * int k" using e by simp
  ultimately show ?thesis using assms(1) by (simp add: valid_node_def)
qed

lemma chunk_add_body:
  assumes v: "valid_node h a" and v2: "mo \<Longrightarrow> valid_node h a'"
  shows "\<exists>h1 h3. set_next (Some a) (Some a') h = Inr h1 \<and>
      (if it then
         bindE (if mo
                then bindE (get_next (Some a) h1) (\<lambda>n. set_freeword n FREEWORD h1)
                else Inr h1)
           (\<lambda>h2. set_freeword (Some a) FREEWORD h2)
       else Inr h1) = Inr h3 \<and> blocks h3 = blocks h \<and> brk h3 = brk h \<and>
      node_next h3 = (node_next h)(a \<mapsto> Some a') \<and>
      (\<forall>x. node_freeword h3 x =
           (if it \<and> (x = a \<or> (x = a' \<and> mo)) then Some FREEWORD else node_freeword h x))"
proof (cases it)
  case False
  then show ?thesis using v by (simp add: set_next_ok)
next
  case it: True
  show ?thesis
  proof (cases mo)
    case False
    then show ?thesis using v it by (simp add: set_next_ok set_freeword_ok)
  next
    case True
    then show ?thesis using v it v2 by (simp add: set_next_ok set_freeword_ok get_next_ok)
  qed
qed

lemma chunk_add_loop_spec:
  assumes "blocks h c = Some sz" "sizeof_freenode \<le> esize pool" "esize pool * int n \<le> sz" "j \<le> n"
  shows "\<exists>h'. chunk_add_loop pool (int n - 1) (c, esize pool * int j) (int j) cur h =
           Inr (if j < n then Some (c, esize pool * (int n - 1)) else cur, h')
     \<and> blocks h' = blocks h \<and> brk h' = brk h
     \<and> (\<forall>a. node_next h' a = (if a \<in> slot_set (esize pool) c j n
                                then Some (Some (fst a, snd a + esize pool)) else node_next h a))
     \<and> (\<forall>a. node_freeword h' a = (if allow_iter pool \<and> a \<in> slot_set (esize pool) c j n
                                    then Some FREEWORD else node_freeword h a))"
  using assms
proof (induction "n - j" arbitrary: j cur h)
  case 0
  then have "j = n" by simp
  then show ?case by (simp add: chunk_add_loop.simps [of pool "int n - 1" _ "int n"])
next
  case (Suc d)
  define e where "e = esize pool"
  from Suc.hyps(2) have jn: "j < n" by simp
  have v: "valid_node h (c, e * int j)"
    using slot_valid [OF Suc.prems(1) _ _ jn] Suc.prems(2,3) by (simp add: e_def)
  have suc: "e * int j + e = e * int (Suc j)" by (simp add: algebra_simps)
  have lastj: "(int j \<noteq> int n - 1) = (Suc j < n)" using jn by linarith
  have v2: "valid_node h (c, e * int (Suc j))" if "Suc j < n"
    using slot_valid [OF Suc.prems(1) _ _ that] Suc.prems(2,3) by (simp add: e_def)
  from chunk_add_body [of h "(c, e * int j)" "Suc j < n" "(c, e * int (Suc j))" "allow_iter pool", OF v v2]
  obtain h1 h3 where
    s1: "set_next (Some (c, e * int j)) (Some (c, e * int (Suc j))) h = Inr h1" and
    s3: "(if allow_iter pool then
            bindE (if Suc j < n
                   then bindE (get_next (Some (c, e * int j)) h1) (\<lambda>n. set_freeword n FREEWORD h1)
                   else Inr h1)
              (\<lambda>h2. set_freeword (Some (c, e * int j)) FREEWORD h2)
          else Inr h1) = Inr h3" and
    b3: "blocks h3 = blocks h" "brk h3 = brk h" and
    n3: "node_next h3 = (node_next h)((c, e * int j) \<mapsto> Some (c, e * int (Suc j)))" and
    f3: "\<And>a. node_freeword h3 a =
           (if allow_iter pool \<and> (a = (c, e * int j) \<or> (a = (c, e * int (Suc j)) \<and> Suc j < n))
            then Some FREEWORD else node_freeword h a)"
    by blast
  have d: "d = n - Suc j" using Suc.hyps(2) by simp
  have bl3: "blocks h3 c = Some sz" using b3 Suc.prems(1) by simp
  have sj: "Suc j \<le> n" using jn by simp
  from Suc.hyps(1) [OF d bl3 Suc.prems(2,3) sj, of "Some (c, e * int j)"]
  obtain h' where
    l: "chunk_add_loop pool (int n - 1) (c, e * int (Suc j)) (int (Suc j)) (Some (c, e * int j)) h3 =
          Inr (if Suc j < n then Some (c, e * (int n - 1)) else Some (c, e * int j), h')" and
    b': "blocks h' = blocks h3" "brk h' = brk h3" and
    n': "\<And>a. node_next h' a = (if a \<in> slot_set e c (Suc j) n
                                then Some (Some (fst a, snd a + e)) else node_next h3 a)" and
    f': "\<And>a. node_freeword h' a = (if allow_iter pool \<and> a \<in> slot_set e c (Suc j) n
                                    then Some FREEWORD else node_freeword h3 a)"
    unfolding e_def by blast
  have last: "e * int j = e * (int n - 1)" if "\<not> Suc j < n"
  proof -
    from that jn have "n = Suc j" by simp
    then show ?thesis by simp
  qed
  have jle: "int j \<le> int n - 1" using jn by linarith
  have j1: "int j + 1 = int (Suc j)" by simp
  have res: "chunk_add_loop pool (int n - 1) (c, e * int j) (int j) cur h = Inr (Some (c, e * (int n - 1)), h')"
    apply (subst chunk_add_loop.simps)
    apply (simp only: jle if_True Let_def fst_conv snd_conv e_def [symmetric] suc s1 sum.case lastj s3 j1 l)
    using last by simp
  have mem: "(c, e * int (Suc j)) \<in> slot_set e c (Suc j) n" if "Suc j < n"
    unfolding slot_set_def using that by (intro image_eqI [where x = "Suc j"] refl) simp
  have nxt: "node_next h' a = (if a \<in> slot_set e c j n
                                then Some (Some (fst a, snd a + e)) else node_next h a)" for a
    unfolding n' n3 slot_set_step [OF jn] by (simp add: suc)
  have fw: "node_freeword h' a = (if allow_iter pool \<and> a \<in> slot_set e c j n
                                    then Some FREEWORD else node_freeword h a)" for a
    unfolding f' f3 slot_set_step [OF jn] using mem by auto
  show ?case
    unfolding e_def [symmetric] using res jn b' b3 nxt fw by simp
qed

lemma chunk_add_loop_eq:
  assumes "blocks h c = Some sz" "sizeof_freenode \<le> esize pool" "esize pool * int n \<le> sz" "j \<le> n"
  shows "chunk_add_loop pool (int n - 1) (c, esize pool * int j) (int j) cur h =
           Inr (if j < n then Some (c, esize pool * (int n - 1)) else cur,
                thread_heap (esize pool) (allow_iter pool) c j n h)"
proof -
  from chunk_add_loop_spec [OF assms, of cur] obtain h' where
    l: "chunk_add_loop pool (int n - 1) (c, esize pool * int j) (int j) cur h =
           Inr (if j < n then Some (c, esize pool * (int n - 1)) else cur, h')" and
    b: "blocks h' = blocks h" "brk h' = brk h" and
    n: "\<And>a. node_next h' a = (if a \<in> slot_set (esize pool) c j n
                                then Some (Some (fst a, snd a + esize pool)) else node_next h a)" and
    f: "\<And>a. node_freeword h' a = (if allow_iter pool \<and> a \<in> slot_set (esize pool) c j n
                                    then Some FREEWORD else node_freeword h a)"
    by blast
  have "h' = thread_heap (esize pool) (allow_iter pool) c j n h"
    unfolding thread_heap_def
    by (rule heap.equality) (simp_all add: b n f fun_eq_iff)
  with l show ?thesis by simp
qed

lemma allow_iter_upd [simp]:
  "allow_iter (pool\<lparr>chunks := x\<rparr>) = allow_iter pool"
  "allow_iter (pool\<lparr>free := y\<rparr>) = allow_iter pool"
  "allow_iter (pool\<lparr>totused := z\<rparr>) = allow_iter pool"
  by (simp_all add: allow_iter_def)

lemma valid_node_thread [simp]: "valid_node (thread_heap e it c j n h) a = valid_node h a"
  by (simp add: valid_node_def thread_heap_def)

lemma chunk_add_eq:
  assumes b: "blocks h c = Some sz" and e: "sizeof_freenode \<le> esize pool"
    and sz: "esize pool * pchunk pool \<le> sz" and p: "1 \<le> pchunk pool"
    and lt: "\<And>l. lasttail = Some l \<Longrightarrow> valid_node h l \<and> fst l \<noteq> c"
  shows "mempool_chunk_add pool c lasttail h =
           Inr (Some (c, esize pool * (pchunk pool - 1)),
                pool\<lparr>chunks := chunks pool @ [c],
                     free := (if free pool = None then Some (c, 0) else free pool)\<rparr>,
                chunk_heap (esize pool) (allow_iter pool) c (nat (pchunk pool)) lasttail h)"
proof -
  define n where "n = nat (pchunk pool)"
  have n: "int n = pchunk pool" "0 < n" using p by (simp_all add: n_def)
  have sz': "esize pool * int n \<le> sz" using sz n by simp
  have v0: "valid_node h (c, 0)"
    using slot_valid [OF b e sz' n(2)] by simp
  have vl: "valid_node h (c, esize pool * (int n - 1))"
    using slot_valid [OF b e sz', of "n - 1"] n(2) by (simp add: of_nat_diff)
  have in0: "(c, 0) \<in> slot_set (esize pool) c 0 n"
    unfolding slot_set_def using n(2) by (intro image_eqI [where x = 0]) simp_all
  have inl: "(c, esize pool * (int n - 1)) \<in> slot_set (esize pool) c 0 n"
    unfolding slot_set_def using n(2) by (intro image_eqI [where x = "n - 1"]) (simp_all add: of_nat_diff)
  have notin: "l \<notin> slot_set (esize pool) c 0 n" if "lasttail = Some l" for l
    using lt [OF that] by (auto simp: slot_set_def)
  have loop: "chunk_add_loop pool' (int n - 1) (c, 0) 0 None h' =
           Inr (Some (c, esize pool * (int n - 1)),
                thread_heap (esize pool) (allow_iter pool) c 0 n h')"
    if "blocks h' = blocks h" "esize pool' = esize pool" "allow_iter pool' = allow_iter pool"
    for pool' h'
    using chunk_add_loop_eq [of h' c sz pool' n 0 None] that b e sz' n by simp
  show ?thesis
  proof (cases lasttail)
    case None
    show ?thesis
      unfolding mempool_chunk_add_def Let_def BLI_addtail_def n_def [symmetric]
      using v0 vl in0 inl None
      apply (simp add: loop set_next_ok set_freeword_ok n(1) [symmetric])
      apply (intro conjI impI)
      apply (rule heap.equality; simp add: chunk_heap_def thread_heap_def fun_eq_iff; fail)+
      done
  next
    case (Some l)
    with lt have vlt: "valid_node h l" "fst l \<noteq> c" by auto
    show ?thesis
      unfolding mempool_chunk_add_def Let_def BLI_addtail_def n_def [symmetric]
      using v0 vl in0 inl Some vlt notin [OF Some]
      apply (simp add: loop set_next_ok set_freeword_ok n(1) [symmetric])
      apply (intro conjI impI)
      apply (rule heap.equality; auto simp add: chunk_heap_def thread_heap_def fun_eq_iff; fail)+
      done
  qed
qed

lemma thread_heap_step:
  assumes "j < n"
  shows "thread_heap e False c (Suc j) n
           (h\<lparr>node_next := (node_next h)((c, e * int j) \<mapsto> Some (c, e * int (Suc j)))\<rparr>) =
         thread_heap e False c j n h"
  unfolding thread_heap_def
  by (rule heap.equality) (auto simp: fun_eq_iff slot_set_step [OF assms] algebra_simps)

lemma thread_heap_nil [simp]: "thread_heap e it c n n h = h"
  unfolding thread_heap_def by (rule heap.equality) simp_all

lemma free_rethread_loop_eq:
  assumes "blocks h c = Some sz" "sizeof_freenode \<le> esize pool" "esize pool * int n \<le> sz"
    "j \<le> n" "pchunk pool = int n"
  shows "free_rethread_loop pool (c, esize pool * int j) (int j) cur h =
           Inr (if j < n then Some (c, esize pool * (int n - 1)) else cur,
                thread_heap (esize pool) False c j n h)"
  using assms
proof (induction "n - j" arbitrary: j cur h)
  case 0
  then have "j = n" by simp
  then show ?case using "0.prems"(5)
    by (simp add: free_rethread_loop.simps [of pool _ "int n"])
next
  case (Suc d)
  define e where "e = esize pool"
  from Suc.hyps(2) have jn: "j < n" by simp
  have v: "valid_node h (c, e * int j)"
    using slot_valid [OF Suc.prems(1) _ _ jn] Suc.prems(2,3) by (simp add: e_def)
  have suc: "e * int j + e = e * int (Suc j)" by (simp add: algebra_simps)
  define h1 where "h1 = h\<lparr>node_next := (node_next h)((c, e * int j) \<mapsto> Some (c, e * int (Suc j)))\<rparr>"
  have s1: "set_next (Some (c, e * int j)) (Some (c, e * int (Suc j))) h = Inr h1"
    using v by (simp add: set_next_ok h1_def)
  have d: "d = n - Suc j" using Suc.hyps(2) by simp
  have bl1: "blocks h1 c = Some sz" using Suc.prems(1) by (simp add: h1_def)
  have sj: "Suc j \<le> n" using jn by simp
  note ih = Suc.hyps(1) [OF d bl1 Suc.prems(2,3) sj Suc.prems(5), of "Some (c, e * int j)",
      folded e_def]
  have last: "e * int j = e * (int n - 1)" if "\<not> Suc j < n"
  proof -
    from that jn have "n = Suc j" by simp
    then show ?thesis by simp
  qed
  have jlt: "int j < pchunk pool" using jn Suc.prems(5) by simp
  have j1: "int j + 1 = int (Suc j)" by simp
  have th: "thread_heap e False c (Suc j) n h1 = thread_heap e False c j n h"
    unfolding h1_def by (rule thread_heap_step [OF jn])
  show ?case
    apply (subst free_rethread_loop.simps)
    apply (simp only: jlt if_True Let_def fst_conv snd_conv e_def [symmetric] suc s1 sum.case j1 ih th)
    using last jn by simp
qed

lemma free_chunks_eq:
  "distinct cs \<Longrightarrow> (\<And>c. c \<in> set cs \<Longrightarrow> blocks h c \<noteq> None) \<Longrightarrow>
   free_chunks cs h =
     Inr (h\<lparr>blocks := (\<lambda>b. if b \<in> set cs then None else blocks h b),
            node_next := (\<lambda>a. if fst a \<in> set cs then None else node_next h a),
            node_freeword := (\<lambda>a. if fst a \<in> set cs then None else node_freeword h a)\<rparr>)"
proof (induction cs arbitrary: h)
  case Nil
  show ?case by simp
next
  case (Cons c cs)
  from Cons.prems(2) [of c] obtain sz where b: "blocks h c = Some sz" by auto
  define h1 where "h1 = h\<lparr>blocks := (blocks h)(c := None),
                node_next := (\<lambda>a. if fst a = c then None else node_next h a),
                node_freeword := (\<lambda>a. if fst a = c then None else node_freeword h a)\<rparr>"
  have f: "heap_free c h = Inr h1" using b by (simp add: heap_free_def h1_def)
  have al: "\<And>x. x \<in> set cs \<Longrightarrow> blocks h1 x \<noteq> None"
    using Cons.prems by (auto simp: h1_def)
  from Cons.prems(1) have dc: "distinct cs" by simp
  have eq: "h1\<lparr>blocks := (\<lambda>b. if b \<in> set cs then None else blocks h1 b),
            node_next := (\<lambda>a. if fst a \<in> set cs then None else node_next h1 a),
            node_freeword := (\<lambda>a. if fst a \<in> set cs then None else node_freeword h1 a)\<rparr> =
       h\<lparr>blocks := (\<lambda>b. if b \<in> set (c # cs) then None else blocks h b),
            node_next := (\<lambda>a. if fst a \<in> set (c # cs) then None else node_next h a),
            node_freeword := (\<lambda>a. if fst a \<in> set (c # cs) then None else node_freeword h a)\<rparr>"
    by (rule heap.equality) (auto simp: h1_def fun_eq_iff)
  show ?case using Cons.IH [OF dc al] f eq by simp
qed

lemma set_slots [simp]: "set (slots e c j n) = slot_set e c j n"
  by (simp add: slots_def slot_set_def)

lemma fl_seg_cong:
  "(\<And>a. a \<in> set as \<Longrightarrow> nx a = nx' a) \<Longrightarrow> fl_seg nx p as q = fl_seg nx' p as q"
  by (induction as arbitrary: p) (auto split: option.splits)

lemma fl_seg_append:
  "fl_seg nx p (as @ bs) q = (\<exists>r. fl_seg nx p as r \<and> fl_seg nx r bs q)"
  by (induction as arbitrary: p) (auto split: option.splits)

lemma fl_seg_unique:
  "fl_seg nx p as None \<Longrightarrow> fl_seg nx p bs None \<Longrightarrow> as = bs"
proof (induction as arbitrary: p bs)
  case Nil
  then show ?case by (cases bs) auto
next
  case (Cons a as)
  then show ?case by (cases bs) (auto split: option.splits)
qed

lemma slots_Cons: "j < n \<Longrightarrow> slots e c j n = (c, e * int j) # slots e c (Suc j) n"
  by (simp add: slots_def upt_conv_Cons)

lemma fl_seg_slots:
  assumes "\<And>k. j \<le> k \<Longrightarrow> Suc k < n \<Longrightarrow> nx (c, e * int k) = Some (Some (c, e * int (Suc k)))"
    and "nx (c, e * (int n - 1)) = Some q" and "j < n"
  shows "fl_seg nx (Some (c, e * int j)) (slots e c j n) q"
  using assms
proof (induction "n - j" arbitrary: j)
  case 0
  then show ?case by simp
next
  case (Suc d)
  show ?case
  proof (cases "Suc j < n")
    case True
    have d: "d = n - Suc j" using Suc.hyps(2) by simp
    have "fl_seg nx (Some (c, e * int (Suc j))) (slots e c (Suc j) n) q"
      by (rule Suc.hyps(1) [OF d _ Suc.prems(2) True]) (simp add: Suc.prems(1))
    then show ?thesis
      using Suc.prems(1) [of j] True Suc.prems(3) by (simp add: slots_Cons)
  next
    case False
    with Suc.prems(3) have n: "n = Suc j" by simp
    then show ?thesis using Suc.prems(2) by (simp add: slots_Cons slots_def)
  qed
qed

lemma distinct_slots: "0 < e \<Longrightarrow> distinct (slots e c j n)"
  by (simp add: slots_def distinct_map inj_on_def)

lemma pool_cfg_upd [simp]:
  "pool_cfg (pool\<lparr>chunks := x\<rparr>) = pool_cfg pool"
  "pool_cfg (pool\<lparr>free := y\<rparr>) = pool_cfg pool"
  "pool_cfg (pool\<lparr>totused := z\<rparr>) = pool_cfg pool"
  by (simp_all add: pool_cfg_def)

lemma chunk_slots_upd [simp]:
  "chunk_slots (pool\<lparr>chunks := x\<rparr>) = chunk_slots pool"
  "chunk_slots (pool\<lparr>free := y\<rparr>) = chunk_slots pool"
  "chunk_slots (pool\<lparr>totused := z\<rparr>) = chunk_slots pool"
  by (simp_all add: chunk_slots_def fun_eq_iff)

lemma all_slots_upd [simp]:
  "all_slots (pool\<lparr>free := y\<rparr>) = all_slots pool"
  "all_slots (pool\<lparr>totused := z\<rparr>) = all_slots pool"
  "all_slots (pool\<lparr>chunks := x\<rparr>) = concat (map (chunk_slots pool) x)"
  by (simp_all add: all_slots_def)

lemma pool_cfg_pos: "pool_cfg pool \<Longrightarrow> 0 < esize pool \<and> 0 < nat (pchunk pool) \<and> int (nat (pchunk pool)) = pchunk pool"
  by (simp add: pool_cfg_def sizeof_freenode_def)

lemma in_chunk_slots: "a \<in> set (chunk_slots pool c) \<longleftrightarrow> a \<in> slot_set (esize pool) c 0 (nat (pchunk pool))"
  by (simp add: chunk_slots_def)

lemma fst_chunk_slots: "a \<in> set (chunk_slots pool c) \<Longrightarrow> fst a = c"
  by (auto simp: chunk_slots_def slot_set_def)

lemma in_all_slots:
  "a \<in> set (all_slots pool) \<longleftrightarrow> fst a \<in> set (chunks pool) \<and> a \<in> set (chunk_slots pool (fst a))"
  by (auto simp: all_slots_def dest: fst_chunk_slots)

lemma all_slotsE:
  assumes "a \<in> set (all_slots pool)"
  obtains k where "fst a \<in> set (chunks pool)" "k < nat (pchunk pool)" "snd a = esize pool * int k"
proof -
  from assms have c: "fst a \<in> set (chunks pool)"
    and "a \<in> slot_set (esize pool) (fst a) 0 (nat (pchunk pool))"
    by (simp_all add: in_all_slots chunk_slots_def)
  then obtain k where "k < nat (pchunk pool)" "a = (fst a, esize pool * int k)"
    unfolding slot_set_def by auto
  then have "k < nat (pchunk pool)" "snd a = esize pool * int k"
    by (simp, metis snd_conv)
  with c show thesis by (rule that)
qed

lemma chunk_slot_valid:
  assumes "pool_cfg pool" "blocks h c = Some (csize pool)" "a \<in> set (chunk_slots pool c)"
  shows "valid_node h a"
proof -
  from assms(3) obtain k where k: "k < nat (pchunk pool)" "a = (c, esize pool * int k)"
    by (auto simp: chunk_slots_def slot_set_def)
  from assms(1) have "sizeof_freenode \<le> esize pool" "esize pool * int (nat (pchunk pool)) \<le> csize pool"
    by (simp_all add: pool_cfg_def)
  from slot_valid [OF assms(2) this k(1)] k(2) show ?thesis by simp
qed

lemma all_slot_valid:
  assumes "pool_cfg pool" "pool_heap pool h" "a \<in> set (all_slots pool)"
  shows "valid_node h a"
  using assms chunk_slot_valid [of pool h "fst a" a]
  by (auto simp: in_all_slots pool_heap_def)

lemma distinct_chunk_slots: "pool_cfg pool \<Longrightarrow> distinct (chunk_slots pool c)"
  by (simp add: chunk_slots_def distinct_slots pool_cfg_pos)

lemma distinct_all_slots_aux:
  "pool_cfg pool \<Longrightarrow> distinct cs \<Longrightarrow> distinct (concat (map (chunk_slots pool) cs))"
proof (induction cs)
  case Nil
  show ?case by simp
next
  case (Cons c cs)
  then show ?case
    by (auto simp: distinct_chunk_slots dest!: fst_chunk_slots)
qed

lemma distinct_all_slots: "pool_cfg pool \<Longrightarrow> distinct (chunks pool) \<Longrightarrow> distinct (all_slots pool)"
  by (simp add: all_slots_def distinct_all_slots_aux)

lemma get_freeword_ok:
  "valid_node h a \<Longrightarrow> node_freeword h a = Some w \<Longrightarrow> get_freeword (Some a) h = Inr w"
  by (simp add: get_freeword_def)

text \<open>Allocation from a free list that is not empty.\<close>

lemma alloc_pop:
  assumes inv: "pool_inv_fl pool h live (a # fl)" and ok: "totused pool < INT_MAX"
  shows "\<exists>r. node_next h a = Some r \<and>
     BLI_mempool_alloc pool h =
       Inr (Some a, pool\<lparr>totused := totused pool + 1, free := r\<rparr>,
            if allow_iter pool then h\<lparr>node_freeword := (node_freeword h)(a \<mapsto> USEDWORD)\<rparr> else h) \<and>
     pool_inv_fl (pool\<lparr>totused := totused pool + 1, free := r\<rparr>)
        (if allow_iter pool then h\<lparr>node_freeword := (node_freeword h)(a \<mapsto> USEDWORD)\<rparr> else h)
        (live @ [a]) fl"
proof -
  from inv have cfg: "pool_cfg pool" and ph: "pool_heap pool h"
    and fr: "free pool = Some a" and tu: "totused pool = int (length live)"
    by (auto simp: pool_inv_fl_def)
  from inv obtain r where r: "node_next h a = Some r" "fl_seg (node_next h) r fl None"
    by (auto simp: pool_inv_fl_def split: option.splits)
  from inv have "a \<in> set (all_slots pool)" by (auto simp: pool_inv_fl_def)
  then have v: "valid_node h a" by (rule all_slot_valid [OF cfg ph])
  have io: "int_ok (totused pool + 1)" using ok tu by (simp add: int_ok_def INT_MIN_def)
  have eq: "BLI_mempool_alloc pool h =
       Inr (Some a, pool\<lparr>totused := totused pool + 1, free := r\<rparr>,
            if allow_iter pool then h\<lparr>node_freeword := (node_freeword h)(a \<mapsto> USEDWORD)\<rparr> else h)"
    unfolding BLI_mempool_alloc_def Let_def
    using io fr v r(1) by (simp add: set_freeword_ok get_next_ok)
  have "pool_inv_fl (pool\<lparr>totused := totused pool + 1, free := r\<rparr>)
        (if allow_iter pool then h\<lparr>node_freeword := (node_freeword h)(a \<mapsto> USEDWORD)\<rparr> else h)
        (live @ [a]) fl"
    using inv r(2) ok unfolding pool_inv_fl_def
    by (auto simp: pool_heap_def)
  with r(1) eq show ?thesis by blast
qed

lemma chunk_heap_simps [simp]:
  "blocks (chunk_heap e it c n lt h) = blocks h"
  "brk (chunk_heap e it c n lt h) = brk h"
  "valid_node (chunk_heap e it c n lt h) a = valid_node h a"
  by (simp_all add: chunk_heap_def valid_node_def)

lemma chunk_heap_next:
  "node_next (chunk_heap e it c n lt h) a =
     (if a \<in> slot_set e c 0 n
      then (if a = (c, e * (int n - 1)) then Some None else Some (Some (fst a, snd a + e)))
      else if Some a = lt then Some (Some (c, 0)) else node_next h a)"
  by (simp add: chunk_heap_def)

lemma chunk_heap_freeword:
  "node_freeword (chunk_heap e it c n lt h) a =
     (if it \<and> (a \<in> slot_set e c 0 n \<or> Some a = lt) then Some FREEWORD else node_freeword h a)"
  by (simp add: chunk_heap_def)

lemma slot_set_fst: "a \<in> slot_set e c j n \<Longrightarrow> fst a = c"
  by (auto simp: slot_set_def)

lemma slot_in_set: "j \<le> k \<Longrightarrow> k < n \<Longrightarrow> (c, e * int k) \<in> slot_set e c j n"
  unfolding slot_set_def by (intro image_eqI [where x = k]) simp_all

lemma slot_eq_iff: "0 < e \<Longrightarrow> (e * int k = e * int k') = (k = k')"
  by simp

text \<open>The slots of a chunk just added form a path that ends at \<open>NULL\<close>.\<close>

lemma chunk_heap_path:
  assumes e: "0 < e" and jn: "j < n"
  shows "fl_seg (node_next (chunk_heap e it c n lt h)) (Some (c, e * int j)) (slots e c j n) None"
proof (rule fl_seg_slots [OF _ _ jn])
  fix k assume k: "j \<le> k" "Suc k < n"
  then have "(c, e * int k) \<in> slot_set e c 0 n" by (intro slot_in_set) simp_all
  moreover have "e * int k \<noteq> e * (int n - 1)"
  proof
    assume "e * int k = e * (int n - 1)"
    with e have "int k = int n - 1" by simp
    with k show False by linarith
  qed
  ultimately show "node_next (chunk_heap e it c n lt h) (c, e * int k) = Some (Some (c, e * int (Suc k)))"
    by (simp add: chunk_heap_next algebra_simps)
next
  have "(c, e * (int n - 1)) \<in> slot_set e c 0 n"
    using slot_in_set [of 0 "n - 1" n c e] jn by (simp add: of_nat_diff)
  then show "node_next (chunk_heap e it c n lt h) (c, e * (int n - 1)) = Some None"
    by (simp add: chunk_heap_next)
qed

lemma alloc_grow_eq:
  assumes cfg: "pool_cfg pool" and fr: "free pool = None" and ok: "int_ok (totused pool + 1)"
  shows "BLI_mempool_alloc pool h =
       Inr (Some (brk h, 0),
            pool\<lparr>totused := totused pool + 1, chunks := chunks pool @ [brk h],
                 free := (if pchunk pool = 1 then None else Some (brk h, esize pool))\<rparr>,
            if allow_iter pool
            then (grown_heap pool h)\<lparr>node_freeword := (node_freeword (grown_heap pool h))((brk h, 0) \<mapsto> USEDWORD)\<rparr>
            else grown_heap pool h)"
proof -
  define c where "c = brk h"
  define h1 where "h1 = snd (heap_alloc (csize pool) h)"
  define n where "n = nat (pchunk pool)"
  define pool1 where "pool1 = pool\<lparr>totused := totused pool + 1\<rparr>"
  have al: "mempool_chunk_alloc pool1 h = (c, h1)"
    by (simp add: mempool_chunk_alloc_def heap_alloc_def c_def h1_def pool1_def)
  have b1: "blocks h1 c = Some (csize pool)" by (simp add: h1_def heap_alloc_def c_def)
  from cfg have c1: "sizeof_freenode \<le> esize pool1" "esize pool1 * pchunk pool1 \<le> csize pool"
    "1 \<le> pchunk pool1"
    by (simp_all add: pool_cfg_def pool1_def)
  have add: "mempool_chunk_add pool1 c None h1 =
           Inr (Some (c, esize pool * (pchunk pool - 1)),
                pool1\<lparr>chunks := chunks pool @ [c], free := Some (c, 0)\<rparr>,
                chunk_heap (esize pool) (allow_iter pool) c n None h1)"
    using chunk_add_eq [OF b1 c1, of None] fr by (simp add: pool1_def n_def)
  have gh: "grown_heap pool h = chunk_heap (esize pool) (allow_iter pool) c n None h1"
    by (simp add: grown_heap_def c_def n_def h1_def)
  have np: "0 < n" "int n = pchunk pool" using cfg by (simp_all add: pool_cfg_def n_def)
  have e: "0 < esize pool" using cfg by (simp add: pool_cfg_pos)
  have v: "valid_node h1 (c, 0)"
    using slot_valid [OF b1, of "esize pool" n 0] c1 np by (simp add: pool1_def)
  have in0: "(c, 0) \<in> slot_set (esize pool) c 0 n"
    using slot_in_set [of 0 0 n c "esize pool"] np by simp
  have nx: "node_next (chunk_heap (esize pool) (allow_iter pool) c n None h1) (c, 0) =
            Some (if pchunk pool = 1 then None else Some (c, esize pool))"
    using in0 e np by (auto simp: chunk_heap_next)
  show ?thesis
    unfolding BLI_mempool_alloc_def Let_def
    using ok fr al add v nx
    by (simp add: pool1_def [symmetric] set_freeword_ok get_next_ok gh c_def [symmetric])
      (simp add: pool1_def)
qed

lemma grown_heap_simps:
  "blocks (grown_heap pool h) = (blocks h)(brk h \<mapsto> csize pool)"
  "brk (grown_heap pool h) = Suc (brk h)"
  "fst a \<noteq> brk h \<Longrightarrow> node_next (grown_heap pool h) a = node_next h a"
  "fst a \<noteq> brk h \<Longrightarrow> node_freeword (grown_heap pool h) a = node_freeword h a"
  by (auto simp: grown_heap_def heap_alloc_def chunk_heap_next chunk_heap_freeword
      dest: slot_set_fst)

lemma alloc_grow_inv:
  assumes inv: "pool_inv_fl pool h live []" and ok: "totused pool < INT_MAX"
  shows "pool_inv_fl
           (pool\<lparr>totused := totused pool + 1, chunks := chunks pool @ [brk h],
                 free := (if pchunk pool = 1 then None else Some (brk h, esize pool))\<rparr>)
           (if allow_iter pool
            then (grown_heap pool h)\<lparr>node_freeword := (node_freeword (grown_heap pool h))((brk h, 0) \<mapsto> USEDWORD)\<rparr>
            else grown_heap pool h)
           (live @ [(brk h, 0)])
           (slots (esize pool) (brk h) (Suc 0) (nat (pchunk pool)))"
proof -
  define c where "c = brk h"
  define n where "n = nat (pchunk pool)"
  define e where "e = esize pool"
  define G where "G = grown_heap pool h"
  define h' where "h' = (if allow_iter pool
            then G\<lparr>node_freeword := (node_freeword G)((c, 0) \<mapsto> USEDWORD)\<rparr> else G)"
  define pool' where "pool' = pool\<lparr>totused := totused pool + 1, chunks := chunks pool @ [c],
                 free := (if pchunk pool = 1 then None else Some (c, e))\<rparr>"
  from inv have cfg: "pool_cfg pool" and ph: "pool_heap pool h"
    and tu: "totused pool = int (length live)" and dl: "distinct live"
    and lv: "set live = set (all_slots pool)"
    and tg: "allow_iter pool \<Longrightarrow> \<forall>a \<in> set live. node_freeword h a = Some USEDWORD"
    by (auto simp: pool_inv_fl_def)
  have np: "0 < n" "int n = pchunk pool" and e: "0 < e"
    using cfg by (simp_all add: pool_cfg_def n_def e_def sizeof_freenode_def)
  from ph have cn: "c \<notin> set (chunks pool)" by (auto simp: pool_heap_def c_def)
  have lf: "fst a \<noteq> c" if "a \<in> set live" for a
    using that lv cn by (auto simp: in_all_slots)
  have bG: "blocks G = (blocks h)(c \<mapsto> csize pool)" "brk G = Suc c"
    by (simp_all add: G_def c_def grown_heap_simps)
  have bh': "blocks h' = blocks G" "brk h' = brk G" "node_next h' = node_next G"
    by (simp_all add: h'_def)
  have 1: "pool_cfg pool'" using cfg by (simp add: pool'_def)
  have 2: "pool_heap pool' h'"
    using ph cn by (auto simp: pool_heap_def pool'_def bh' bG c_def)
  have 5: "distinct (live @ [(c, 0)])" using dl lf [of "(c, 0)"] by auto
  have 6: "fl_seg (node_next h') (free pool') (slots e c (Suc 0) n) None"
  proof (cases "pchunk pool = 1")
    case True
    then have "n = 1" by (simp add: n_def)
    then show ?thesis using True by (simp add: pool'_def slots_def)
  next
    case False
    with np have "Suc 0 < n" by linarith
    from chunk_heap_path [OF e this, of "allow_iter pool" c None "snd (heap_alloc (csize pool) h)"] False
    show ?thesis
      by (simp add: bh' G_def grown_heap_def pool'_def c_def n_def e_def)
  qed
  have ss: "slot_set e c 0 n = insert (c, 0) (slot_set e c (Suc 0) n)"
    using slot_set_step [OF np(1), of e c] by simp
  have z: "(c, 0) \<notin> slot_set e c (Suc 0) n" using e by (auto simp: slot_set_def)
  have 8: "set (slots e c (Suc 0) n) \<inter> set (live @ [(c, 0)]) = {}"
    using z lf by (auto dest: slot_set_fst)
  have 9: "set (slots e c (Suc 0) n) \<union> set (live @ [(c, 0)]) = set (all_slots pool')"
    using lv ss by (auto simp: pool'_def all_slots_def chunk_slots_def n_def e_def)
  have 10: "node_freeword h' a = Some FREEWORD"
    if "allow_iter pool" "a \<in> set (slots e c (Suc 0) n)" for a
  proof -
    from that(2) z have "a \<noteq> (c, 0)" "a \<in> slot_set e c 0 n" by (auto simp: ss)
    then show ?thesis
      using that(1) by (simp add: h'_def G_def grown_heap_def chunk_heap_freeword c_def n_def e_def)
  qed
  have 11: "node_freeword h' a = Some USEDWORD" if "allow_iter pool" "a \<in> set (live @ [(c, 0)])" for a
  proof (cases "a = (c, 0)")
    case True
    then show ?thesis using that(1) by (simp add: h'_def)
  next
    case False
    with that(2) have al: "a \<in> set live" by simp
    from lf [OF al] have "fst a \<noteq> brk h" by (simp add: c_def)
    then have "node_freeword G a = node_freeword h a" by (simp add: G_def grown_heap_simps)
    with False tg [OF that(1)] al show ?thesis by (simp add: h'_def)
  qed
  have "pool_inv_fl pool' h' (live @ [(c, 0)]) (slots e c (Suc 0) n)"
    unfolding pool_inv_fl_def
    using 1 2 5 6 8 9 10 11 e tu ok
    by (simp add: distinct_slots) (simp add: pool'_def)
  then show ?thesis
    unfolding pool'_def h'_def G_def c_def n_def e_def .
qed

lemma free_chunks_release:
  "distinct cs \<Longrightarrow> (\<And>c. c \<in> set cs \<Longrightarrow> blocks h c \<noteq> None) \<Longrightarrow>
   free_chunks cs h = Inr (release_heap cs h)"
  unfolding release_heap_def by (rule free_chunks_eq)

lemma release_heap_simps:
  "blocks (release_heap cs h) b = (if b \<in> set cs then None else blocks h b)"
  "brk (release_heap cs h) = brk h"
  "node_next (release_heap cs h) a = (if fst a \<in> set cs then None else node_next h a)"
  "node_freeword (release_heap cs h) a = (if fst a \<in> set cs then None else node_freeword h a)"
  by (simp_all add: release_heap_def)

lemma freed_heap_simps:
  "blocks (freed_heap pool a h) = blocks h"
  "brk (freed_heap pool a h) = brk h"
  "node_next (freed_heap pool a h) = (node_next h)(a \<mapsto> free pool)"
  "node_freeword (freed_heap pool a h) =
     (if allow_iter pool then (node_freeword h)(a \<mapsto> FREEWORD) else node_freeword h)"
  by (simp_all add: freed_heap_def)

lemma FREEWORD_neq_USEDWORD: "FREEWORD \<noteq> USEDWORD"
  by (simp add: FREEWORD_def USEDWORD_def MAKE_ID_def)

lemma free_prefix:
  assumes inv: "pool_inv_fl pool h live fl" and a: "a \<in> set live"
  shows "(\<not> ndebug \<longrightarrow> list_ex (\<lambda>chunk. ARRAY_HAS_ITEM (Some a) (chunk, 0) (csize pool)) (chunks pool))"
    and "valid_node h a"
    and "allow_iter pool \<Longrightarrow> get_freeword (Some a) h = Inr USEDWORD"
    and "int_ok (totused pool - 1)"
proof -
  from inv have cfg: "pool_cfg pool" and ph: "pool_heap pool h" by (auto simp: pool_inv_fl_def)
  from inv a have sl: "a \<in> set (all_slots pool)" by (auto simp: pool_inv_fl_def)
  then show v: "valid_node h a" by (rule all_slot_valid [OF cfg ph])
  from inv a have "allow_iter pool \<Longrightarrow> node_freeword h a = Some USEDWORD"
    by (auto simp: pool_inv_fl_def)
  then show "allow_iter pool \<Longrightarrow> get_freeword (Some a) h = Inr USEDWORD"
    using v by (simp add: get_freeword_ok)
  from inv a have "1 \<le> totused pool" "totused pool \<le> INT_MAX"
    by (cases live; auto simp: pool_inv_fl_def)+
  then show "int_ok (totused pool - 1)" by (simp add: int_ok_def INT_MIN_def INT_MAX_def)
  from sl obtain k where k: "fst a \<in> set (chunks pool)" "k < nat (pchunk pool)"
    "snd a = esize pool * int k"
    by (rule all_slotsE)
  from cfg have e: "0 < esize pool" by (simp add: pool_cfg_pos)
  from slot_bound [of "esize pool" k "nat (pchunk pool)"] e k(2) cfg
  have "snd a < csize pool" using k(3) by (simp add: pool_cfg_def)
  moreover have "0 \<le> snd a" using k(3) e by simp
  ultimately have "ARRAY_HAS_ITEM (Some a) (fst a, 0) (csize pool)"
    by (simp add: ARRAY_HAS_ITEM_def)
  with k(1) show "\<not> ndebug \<longrightarrow> list_ex (\<lambda>chunk. ARRAY_HAS_ITEM (Some a) (chunk, 0) (csize pool)) (chunks pool)"
    by (auto simp: list_ex_iff)
qed

lemma fl_seg_upd: "a \<notin> set as \<Longrightarrow> fl_seg (nx(a := v)) p as q = fl_seg nx p as q"
  by (rule fl_seg_cong) auto

lemma free_push_eq:
  assumes inv: "pool_inv_fl pool h live fl" and a: "a \<in> set live" and ne: "totused pool \<noteq> 1"
  shows "BLI_mempool_free ndebug pool (Some a) h =
           Inr (pool\<lparr>free := Some a, totused := totused pool - 1\<rparr>, freed_heap pool a h)"
  unfolding BLI_mempool_free_def Let_def
  using free_prefix(1) [OF inv a, of ndebug] free_prefix(2-4) [OF inv a] ne
  by (simp add: set_freeword_ok set_next_ok FREEWORD_neq_USEDWORD [symmetric] freed_heap_def)

lemma free_push_inv:
  assumes inv: "pool_inv_fl pool h live fl" and a: "a \<in> set live"
  shows "pool_inv_fl (pool\<lparr>free := Some a, totused := totused pool - 1\<rparr>) (freed_heap pool a h)
           (remove1 a live) (a # fl)"
proof -
  from inv a have nfl: "a \<notin> set fl" by (auto simp: pool_inv_fl_def)
  from inv have p: "fl_seg (node_next h) (free pool) fl None" by (simp add: pool_inv_fl_def)
  have "fl_seg ((node_next h)(a \<mapsto> free pool)) (free pool) fl None"
    using nfl p by (simp add: fl_seg_upd)
  moreover have "int (length (remove1 a live)) = int (length live) - 1"
    using a length_pos_if_in_set [OF a] by (cases "length live") (simp_all add: length_remove1)
  ultimately show ?thesis
    using inv a nfl unfolding pool_inv_fl_def
    by (auto simp: freed_heap_simps pool_heap_def FREEWORD_neq_USEDWORD)
qed

lemma shrink_eq:
  assumes cfg: "pool_cfg pool" and ph: "pool_heap pool h" and ch: "chunks pool = first # others"
  shows "bindE (mempool_chunk_free_all (pool\<lparr>chunks := BLI_remlink (chunks pool) first\<rparr>) h)
           (\<lambda>(pool3, h3).
              (let pool4 = pool3\<lparr>chunks := BLI_addtail (chunks pool3) first\<rparr>;
                   pool5 = pool4\<lparr>free := Some (first, 0)\<rparr>
               in bindE (free_rethread_loop pool5 (first, 0) 0 None h3)
                    (\<lambda>(curnode, h4).
                       bindE (set_next curnode None h4)
                         (\<lambda>h5. Inr (pool5, h5))))) =
         Inr (pool\<lparr>chunks := [first], free := Some (first, 0)\<rparr>, shrunk_heap pool first others h)"
proof -
  define n where "n = nat (pchunk pool)"
  from cfg have np: "0 < n" "int n = pchunk pool" and e: "sizeof_freenode \<le> esize pool"
    and sz: "esize pool * int n \<le> csize pool"
    by (simp_all add: pool_cfg_def n_def)
  from ph ch have d: "distinct others" "first \<notin> set others"
    and al: "\<And>c. c \<in> set others \<Longrightarrow> blocks h c \<noteq> None"
    and bf: "blocks h first = Some (csize pool)"
    by (auto simp: pool_heap_def)
  have fa: "mempool_chunk_free_all (pool\<lparr>chunks := BLI_remlink (chunks pool) first\<rparr>) h =
            Inr (pool\<lparr>chunks := []\<rparr>, release_heap others h)"
    using free_chunks_release [OF d(1) al] ch
    by (simp add: mempool_chunk_free_all_def BLI_remlink_def)
  define h3 where "h3 = release_heap others h"
  have b3: "blocks h3 first = Some (csize pool)"
    using bf d(2) by (simp add: h3_def release_heap_simps)
  have loop: "free_rethread_loop pool' (first, 0) 0 None h3 =
           Inr (Some (first, esize pool * (int n - 1)), thread_heap (esize pool) False first 0 n h3)"
    if "esize pool' = esize pool" "pchunk pool' = pchunk pool" for pool'
    using free_rethread_loop_eq [of h3 first "csize pool" pool' n 0 None] b3 e sz np that by simp
  have v: "valid_node h3 (first, esize pool * (int n - 1))"
    using slot_valid [OF b3 e sz, of "n - 1"] np by (simp add: of_nat_diff)
  show ?thesis
    using v np(2)
    by (simp add: fa BLI_addtail_def Let_def h3_def [symmetric] loop set_next_ok
        shrunk_heap_def n_def [symmetric])
qed

lemma free_shrink_eq:
  assumes inv: "pool_inv_fl pool h live fl" and a: "a \<in> set live" and one: "totused pool = 1"
    and ch: "chunks pool = first # others"
  shows "BLI_mempool_free ndebug pool (Some a) h =
           Inr (pool\<lparr>totused := 0, chunks := [first], free := Some (first, 0)\<rparr>,
                shrunk_heap pool first others (freed_heap pool a h))"
proof -
  from inv have cfg: "pool_cfg pool" and ph: "pool_heap pool h" by (auto simp: pool_inv_fl_def)
  define pool1 where "pool1 = pool\<lparr>free := Some a, totused := 0\<rparr>"
  define h2 where "h2 = freed_heap pool a h"
  have cfg1: "pool_cfg pool1" using cfg by (simp add: pool1_def)
  have ph1: "pool_heap pool1 h2" using ph by (simp add: pool1_def h2_def pool_heap_def freed_heap_simps)
  have ch1: "chunks pool1 = first # others" using ch by (simp add: pool1_def)
  note sh = shrink_eq [OF cfg1 ph1 ch1]
  show ?thesis
    unfolding BLI_mempool_free_def Let_def
    using free_prefix(1) [OF inv a, of ndebug] free_prefix(2-4) [OF inv a] one ch
      sh [unfolded pool1_def h2_def]
    by (cases "allow_iter pool")
      (simp_all add: set_freeword_ok set_next_ok FREEWORD_neq_USEDWORD [symmetric]
        freed_heap_def Let_def shrunk_heap_def)
qed

lemma thread_heap_simps:
  "blocks (thread_heap e it c j n h) = blocks h"
  "brk (thread_heap e it c j n h) = brk h"
  "node_next (thread_heap e it c j n h) a =
     (if a \<in> slot_set e c j n then Some (Some (fst a, snd a + e)) else node_next h a)"
  "node_freeword (thread_heap e it c j n h) a =
     (if it \<and> a \<in> slot_set e c j n then Some FREEWORD else node_freeword h a)"
  by (simp_all add: thread_heap_def)

lemma shrunk_heap_simps:
  "blocks (shrunk_heap pool first others h) b = (if b \<in> set others then None else blocks h b)"
  "brk (shrunk_heap pool first others h) = brk h"
  "node_next (shrunk_heap pool first others h) a =
     (if a = (first, esize pool * (pchunk pool - 1)) then Some None
      else if a \<in> slot_set (esize pool) first 0 (nat (pchunk pool))
      then Some (Some (fst a, snd a + esize pool))
      else if fst a \<in> set others then None else node_next h a)"
  "node_freeword (shrunk_heap pool first others h) a =
     (if fst a \<in> set others then None else node_freeword h a)"
  by (simp_all add: shrunk_heap_def Let_def thread_heap_simps release_heap_simps)

lemma shrunk_heap_path:
  assumes cfg: "pool_cfg pool"
  shows "fl_seg (node_next (shrunk_heap pool first others h)) (Some (first, 0))
           (chunk_slots pool first) None"
proof -
  define n where "n = nat (pchunk pool)"
  define e where "e = esize pool"
  from cfg have np: "0 < n" "pchunk pool = int n" and e: "0 < e"
    by (simp_all add: pool_cfg_def n_def e_def sizeof_freenode_def)
  have "fl_seg (node_next (shrunk_heap pool first others h)) (Some (first, e * int 0))
           (slots e first 0 n) None"
  proof (rule fl_seg_slots [OF _ _ np(1)])
    fix k assume k: "0 \<le> k" "Suc k < n"
    then have "(first, e * int k) \<in> slot_set e first 0 n" by (intro slot_in_set) simp_all
    moreover have "e * int k \<noteq> e * (int n - 1)"
    proof
      assume "e * int k = e * (int n - 1)"
      with e have "int k = int n - 1" by simp
      with k show False by linarith
    qed
    ultimately show "node_next (shrunk_heap pool first others h) (first, e * int k) =
        Some (Some (first, e * int (Suc k)))"
      by (simp add: shrunk_heap_simps np(2) e_def [symmetric] n_def [symmetric] algebra_simps)
  next
    show "node_next (shrunk_heap pool first others h) (first, e * (int n - 1)) = Some None"
      by (simp add: shrunk_heap_simps np(2) e_def)
  qed
  then show ?thesis by (simp add: chunk_slots_def n_def e_def)
qed

lemma free_shrink_inv:
  assumes inv: "pool_inv_fl pool h live fl" and a: "a \<in> set live" and one: "totused pool = 1"
    and ch: "chunks pool = first # others"
  shows "pool_inv_fl (pool\<lparr>totused := 0, chunks := [first], free := Some (first, 0)\<rparr>)
           (shrunk_heap pool first others (freed_heap pool a h)) [] (chunk_slots pool first)"
proof -
  define H where "H = shrunk_heap pool first others (freed_heap pool a h)"
  from inv have cfg: "pool_cfg pool" and ph: "pool_heap pool h"
    and all: "set fl \<union> set live = set (all_slots pool)"
    and tg: "allow_iter pool \<Longrightarrow> \<forall>x \<in> set fl. node_freeword h x = Some FREEWORD"
    by (auto simp: pool_inv_fl_def)
  from inv one a have live: "live = [a]"
    by (cases live; cases "tl live") (auto simp: pool_inv_fl_def)
  from ph ch have fo: "first \<notin> set others" and bf: "blocks h first = Some (csize pool)"
    and fb: "first < brk h"
    by (auto simp: pool_heap_def)
  have 2: "pool_heap (pool\<lparr>totused := 0, chunks := [first], free := Some (first, 0)\<rparr>) H"
    using fo bf fb by (simp add: pool_heap_def H_def shrunk_heap_simps freed_heap_simps)
  have 10: "node_freeword H x = Some FREEWORD" if it: "allow_iter pool" and x: "x \<in> set (chunk_slots pool first)" for x
  proof -
    from x have fx: "fst x = first" by (rule fst_chunk_slots)
    with x ch have "x \<in> set (all_slots pool)" by (simp add: in_all_slots)
    with all live have "x = a \<or> x \<in> set fl" by auto
    then have "node_freeword (freed_heap pool a h) x = Some FREEWORD"
      using tg [OF it] it by (auto simp: freed_heap_simps)
    then show ?thesis using fx fo by (simp add: H_def shrunk_heap_simps)
  qed
  show ?thesis
    unfolding pool_inv_fl_def H_def [symmetric]
    using cfg 2 10 shrunk_heap_path [OF cfg, of first others "freed_heap pool a h"]
    by (simp add: H_def distinct_chunk_slots INT_MAX_def)
qed

subsection \<open>Clearing\<close>

lemma clear_eq:
  assumes cfg: "pool_cfg pool" and ph: "pool_heap pool h" and ch: "chunks pool = first # others"
  shows "BLI_mempool_clear pool h =
           Inr (pool\<lparr>chunks := [first], totused := 0, free := Some (first, 0)\<rparr>,
                cleared_heap pool first others h)"
proof -
  from ph ch have d: "distinct others" "first \<notin> set others"
    and al: "\<And>c. c \<in> set others \<Longrightarrow> blocks h c \<noteq> None"
    and bf: "blocks h first = Some (csize pool)"
    by (auto simp: pool_heap_def)
  have fa: "mempool_chunk_free_all (pool\<lparr>chunks := BLI_remlink (chunks pool) first\<rparr>) h =
            Inr (pool\<lparr>chunks := []\<rparr>, release_heap others h)"
    using free_chunks_release [OF d(1) al] ch
    by (simp add: mempool_chunk_free_all_def BLI_remlink_def)
  define pool4 where "pool4 = pool\<lparr>chunks := [], totused := 0, free := None\<rparr>"
  have b1: "blocks (release_heap others h) first = Some (csize pool)"
    using bf d(2) by (simp add: release_heap_simps)
  from cfg have c4: "sizeof_freenode \<le> esize pool4" "esize pool4 * pchunk pool4 \<le> csize pool"
    "1 \<le> pchunk pool4"
    by (simp_all add: pool_cfg_def pool4_def)
  have add: "mempool_chunk_add pool4 first None (release_heap others h) =
           Inr (Some (first, esize pool * (pchunk pool - 1)),
                pool4\<lparr>chunks := [first], free := Some (first, 0)\<rparr>,
                cleared_heap pool first others h)"
    using chunk_add_eq [OF b1 c4, of None] by (simp add: pool4_def cleared_heap_def)
  show ?thesis
    unfolding BLI_mempool_clear_def Let_def
    using ch fa add by (simp add: pool4_def)
qed

lemma clear_inv:
  assumes cfg: "pool_cfg pool" and ph: "pool_heap pool h" and ch: "chunks pool = first # others"
  shows "pool_inv_fl (pool\<lparr>chunks := [first], totused := 0, free := Some (first, 0)\<rparr>)
           (cleared_heap pool first others h) [] (chunk_slots pool first)"
proof -
  from ph ch have fo: "first \<notin> set others" and bf: "blocks h first = Some (csize pool)"
    and fb: "first < brk h"
    by (auto simp: pool_heap_def)
  from pool_cfg_pos [OF cfg] have np: "0 < nat (pchunk pool)" and e: "0 < esize pool"
    by simp_all
  have 2: "pool_heap (pool\<lparr>chunks := [first], totused := 0, free := Some (first, 0)\<rparr>)
             (cleared_heap pool first others h)"
    using fo bf fb by (simp add: pool_heap_def cleared_heap_def release_heap_simps)
  have 6: "fl_seg (node_next (cleared_heap pool first others h)) (Some (first, 0))
             (chunk_slots pool first) None"
    using chunk_heap_path [OF e np, of "allow_iter pool" first None "release_heap others h"]
    by (simp add: cleared_heap_def chunk_slots_def)
  show ?thesis
    unfolding pool_inv_fl_def
    using cfg 2 6
    by (simp add: distinct_chunk_slots INT_MAX_def)
      (simp add: cleared_heap_def chunk_heap_freeword chunk_slots_def)
qed

subsection \<open>Creation\<close>

lemma slots_snoc: "j < n \<Longrightarrow> slots e c j n = slots e c j (n - 1) @ [(c, e * (int n - 1))]"
proof -
  assume "j < n"
  then obtain m where m: "n = Suc m" "j \<le> m" by (cases n) auto
  then show ?thesis by (simp add: slots_def algebra_simps)
qed

lemma all_slots_snoc:
  assumes cfg: "pool_cfg pool" and ne: "chunks pool \<noteq> []"
  shows "\<exists>as. all_slots pool = as @ [(last (chunks pool), esize pool * (pchunk pool - 1))]"
proof -
  from pool_cfg_pos [OF cfg] have np: "0 < nat (pchunk pool)" "int (nat (pchunk pool)) = pchunk pool"
    by simp_all
  from ne have "chunks pool = butlast (chunks pool) @ [last (chunks pool)]" by simp
  then have "all_slots pool = concat (map (chunk_slots pool) (butlast (chunks pool))) @
                chunk_slots pool (last (chunks pool))"
    unfolding all_slots_def by (metis concat_append map_append concat.simps(2) list.simps(9) concat.simps(1) append_Nil2 list.simps(8))
  also have "chunk_slots pool (last (chunks pool)) =
      slots (esize pool) (last (chunks pool)) 0 (nat (pchunk pool) - 1) @
        [(last (chunks pool), esize pool * (pchunk pool - 1))]"
    unfolding chunk_slots_def using slots_snoc [OF np(1), of "esize pool" "last (chunks pool)"] np(2)
    by simp
  finally show ?thesis by simp
qed

lemma added_heap_simps:
  "blocks (added_heap pool lt h) = (blocks h)(brk h \<mapsto> csize pool)"
  "brk (added_heap pool lt h) = Suc (brk h)"
  "fst a \<noteq> brk h \<Longrightarrow> node_next (added_heap pool lt h) a =
     (if Some a = lt then Some (Some (brk h, 0)) else node_next h a)"
  "fst a \<noteq> brk h \<Longrightarrow> node_freeword (added_heap pool lt h) a =
     (if allow_iter pool \<and> Some a = lt then Some FREEWORD else node_freeword h a)"
  by (auto simp: added_heap_def heap_alloc_def chunk_heap_next chunk_heap_freeword
      dest: slot_set_fst)

lemma create_step:
  assumes inv: "create_inv pool h lasttail"
  shows "mempool_chunk_add pool (brk h) lasttail (snd (heap_alloc (csize pool) h)) =
           Inr (Some (brk h, esize pool * (pchunk pool - 1)),
                pool\<lparr>chunks := chunks pool @ [brk h],
                     free := (if free pool = None then Some (brk h, 0) else free pool)\<rparr>,
                added_heap pool lasttail h)"
    and "create_inv
           (pool\<lparr>chunks := chunks pool @ [brk h],
                 free := (if free pool = None then Some (brk h, 0) else free pool)\<rparr>)
           (added_heap pool lasttail h) (Some (brk h, esize pool * (pchunk pool - 1)))"
proof -
  define c where "c = brk h"
  define h1 where "h1 = snd (heap_alloc (csize pool) h)"
  define n where "n = nat (pchunk pool)"
  define e where "e = esize pool"
  define H where "H = added_heap pool lasttail h"
  define pool' where "pool' = pool\<lparr>chunks := chunks pool @ [c],
                     free := (if free pool = None then Some (c, 0) else free pool)\<rparr>"
  from inv have cfg: "pool_cfg pool" and ph: "pool_heap pool h"
    and path: "fl_seg (node_next h) (free pool) (all_slots pool) None"
    and tg: "allow_iter pool \<Longrightarrow> \<forall>a \<in> set (all_slots pool). node_freeword h a = Some FREEWORD"
    and lt: "if chunks pool = [] then free pool = None \<and> lasttail = None
      else lasttail = Some (last (chunks pool), esize pool * (pchunk pool - 1))"
    by (auto simp: create_inv_def)
  from pool_cfg_pos [OF cfg] have np: "0 < n" "int n = pchunk pool" and e: "0 < e"
    by (simp_all add: n_def e_def)
  from ph have cn: "c \<notin> set (chunks pool)" by (auto simp: pool_heap_def c_def)
  have b1: "blocks h1 c = Some (csize pool)" by (simp add: h1_def heap_alloc_def c_def)
  from cfg have c1: "sizeof_freenode \<le> esize pool" "esize pool * pchunk pool \<le> csize pool"
    "1 \<le> pchunk pool"
    by (simp_all add: pool_cfg_def)
  have old: "fst a \<noteq> c" if "a \<in> set (all_slots pool)" for a
    using that cn by (auto simp: in_all_slots)
  have ltv: "valid_node h1 l \<and> fst l \<noteq> c" if l: "lasttail = Some l" for l
  proof -
    from l lt have ne: "chunks pool \<noteq> []" and le: "l = (last (chunks pool), esize pool * (pchunk pool - 1))"
      by (auto split: if_splits)
    from all_slots_snoc [OF cfg ne] le have la: "l \<in> set (all_slots pool)" by auto
    then have "valid_node h l" by (rule all_slot_valid [OF cfg ph])
    moreover from old [OF la] have "fst l \<noteq> c" .
    ultimately show ?thesis
      by (auto simp: valid_node_def h1_def heap_alloc_def c_def)
  qed
  show eq: "mempool_chunk_add pool (brk h) lasttail (snd (heap_alloc (csize pool) h)) =
           Inr (Some (brk h, esize pool * (pchunk pool - 1)),
                pool\<lparr>chunks := chunks pool @ [brk h],
                     free := (if free pool = None then Some (brk h, 0) else free pool)\<rparr>,
                added_heap pool lasttail h)"
    using chunk_add_eq [OF b1 c1 ltv] by (simp add: c_def h1_def added_heap_def)
  have bH: "blocks H = (blocks h)(c \<mapsto> csize pool)" "brk H = Suc c"
    by (simp_all add: H_def c_def added_heap_simps)
  have 1: "pool_cfg pool'" using cfg by (simp add: pool'_def)
  have 2: "pool_heap pool' H"
    using ph cn by (auto simp: pool_heap_def pool'_def bH c_def)
  have as: "all_slots pool' = all_slots pool @ chunk_slots pool c"
    by (simp add: pool'_def all_slots_def)
  have newp: "fl_seg (node_next H) (Some (c, 0)) (chunk_slots pool c) None"
    using chunk_heap_path [OF e np(1), of "allow_iter pool" c lasttail h1]
    by (simp add: H_def added_heap_def c_def h1_def n_def e_def chunk_slots_def)
  have 4: "fl_seg (node_next H) (free pool') (all_slots pool') None"
  proof (cases "chunks pool = []")
    case True
    with lt have "free pool = None" by simp
    with True newp show ?thesis by (simp add: as pool'_def all_slots_def)
  next
    case False
    with lt have l: "lasttail = Some (last (chunks pool), esize pool * (pchunk pool - 1))" by simp
    define l where "l = (last (chunks pool), esize pool * (pchunk pool - 1))"
    from all_slots_snoc [OF cfg False] obtain as where as': "all_slots pool = as @ [l]"
      by (auto simp: l_def)
    from distinct_all_slots [OF cfg] ph as' have la: "l \<notin> set as"
      by (auto simp: pool_heap_def)
    from path as' obtain r where r: "fl_seg (node_next h) (free pool) as r" "fl_seg (node_next h) r [l] None"
      by (auto simp: fl_seg_append)
    from r(2) have rl: "r = Some l" by simp
    from as' False path have fp: "free pool \<noteq> None" by (cases as) auto
    have same: "node_next H a = node_next h a" if "a \<in> set as" for a
    proof -
      from that as' have "a \<in> set (all_slots pool)" by simp
      from old [OF this] that la l show ?thesis
        by (auto simp: H_def added_heap_simps c_def l_def)
    qed
    have p1: "fl_seg (node_next H) (free pool) as (Some l)"
      using r(1) rl fl_seg_cong [of as "node_next H" "node_next h" "free pool" "Some l"] same
      by simp
    have "fst l \<noteq> c" using old [of l] as' by simp
    then have nl: "node_next H l = Some (Some (c, 0))"
      using l by (simp add: H_def added_heap_simps c_def l_def)
    have p2: "fl_seg (node_next H) (Some l) [l] (Some (c, 0))" using nl by simp
    have "fl_seg (node_next H) (free pool) ((as @ [l]) @ chunk_slots pool c) None"
      using p1 p2 newp by (subst fl_seg_append, subst fl_seg_append) blast
    moreover have "free pool' = free pool" using fp by (simp add: pool'_def)
    moreover have "all_slots pool' = (as @ [l]) @ chunk_slots pool c" unfolding as as' ..
    ultimately show ?thesis by simp
  qed
  have 5: "node_freeword H a = Some FREEWORD" if it: "allow_iter pool" and a: "a \<in> set (all_slots pool')" for a
  proof (cases "a \<in> set (chunk_slots pool c)")
    case True
    then show ?thesis using it
      by (simp add: H_def added_heap_def chunk_heap_freeword chunk_slots_def c_def)
  next
    case False
    with a as have ao: "a \<in> set (all_slots pool)" by simp
    from old [OF this] tg [OF it] ao show ?thesis
      by (simp add: H_def added_heap_simps c_def)
  qed
  have "create_inv pool' H (Some (c, esize pool * (pchunk pool - 1)))"
    unfolding create_inv_def using 1 2 4 5 inv
    by (simp add: create_inv_def) (simp add: pool'_def)
  then show "create_inv
           (pool\<lparr>chunks := chunks pool @ [brk h],
                 free := (if free pool = None then Some (brk h, 0) else free pool)\<rparr>)
           (added_heap pool lasttail h) (Some (brk h, esize pool * (pchunk pool - 1)))"
    unfolding pool'_def H_def c_def .
qed

lemma create_loop_ok:
  assumes "create_inv pool h lt"
  shows "\<exists>pool' h' lt'. create_loop pool maxchunks i lt h = Inr (pool', h') \<and>
           create_inv pool' h' lt' \<and>
           chunks pool' = chunks pool @ [brk h..<brk h + nat (maxchunks - i)] \<and>
           esize pool' = esize pool \<and> pchunk pool' = pchunk pool \<and> flag pool' = flag pool \<and>
           csize pool' = csize pool"
  using assms
proof (induction "nat (maxchunks - i)" arbitrary: pool h lt i)
  case 0
  then have "\<not> i < maxchunks" by simp
  with "0.prems" show ?case
    by (auto simp: create_loop.simps [of pool maxchunks i])
next
  case (Suc d)
  from Suc.hyps(2) have lt: "i < maxchunks" and d: "d = nat (maxchunks - (i + 1))" by simp_all
  define pool1 where "pool1 = pool\<lparr>chunks := chunks pool @ [brk h],
                     free := (if free pool = None then Some (brk h, 0) else free pool)\<rparr>"
  define h1 where "h1 = added_heap pool lt h"
  define lt1 where "lt1 = Some (brk h, esize pool * (pchunk pool - 1))"
  note st = create_step [OF Suc.prems, folded pool1_def h1_def lt1_def]
  from Suc.hyps(1) [OF d st(2)] obtain pool' h' lt' where
    l: "create_loop pool1 maxchunks (i + 1) lt1 h1 = Inr (pool', h')" and
    i: "create_inv pool' h' lt'" and
    c: "chunks pool' = chunks pool1 @ [brk h1..<brk h1 + nat (maxchunks - (i + 1))]" and
    f: "esize pool' = esize pool1" "pchunk pool' = pchunk pool1" "flag pool' = flag pool1"
       "csize pool' = csize pool1"
    by blast
  have al: "mempool_chunk_alloc pool h = (brk h, snd (heap_alloc (csize pool) h))"
    by (simp add: mempool_chunk_alloc_def heap_alloc_def)
  have eq: "create_loop pool maxchunks i lt h = Inr (pool', h')"
    by (subst create_loop.simps) (simp add: lt al st(1) l)
  have u: "[b..<b + Suc d] = b # [Suc b..<Suc b + d]" for b
  proof -
    have "b < b + Suc d" by simp
    from upt_conv_Cons [OF this] show ?thesis by (simp only: add_Suc add_Suc_right)
  qed
  have "chunks pool' = chunks pool @ [brk h..<brk h + Suc d]"
    unfolding u c d [symmetric] by (simp add: pool1_def h1_def added_heap_simps)
  then have "chunks pool' = chunks pool @ [brk h..<brk h + nat (maxchunks - i)]"
    unfolding Suc.hyps(2) .
  with eq i f show ?case by (auto simp: pool1_def)
qed

lemma sdiv_nonneg: "0 \<le> k \<Longrightarrow> 0 < l \<Longrightarrow> k sdiv l = k div (l::int)"
  by (simp add: signed_divide_int_def sgn_if)

lemma create_ok:
  assumes te: "0 \<le> totelem" and pc: "1 \<le> pchunk0"
    and ok: "int_ok (max esize0 MEMPOOL_ELEM_SIZE_MIN * pchunk0)" "int_ok (totelem div pchunk0 + 1)"
  shows "\<exists>pool h lt. BLI_mempool_create esize0 totelem pchunk0 flag0 h0 = Inr (pool, h) \<and>
           create_inv pool h lt \<and>
           chunks pool = [brk h0..<brk h0 + nat (totelem div pchunk0 + 1)] \<and>
           esize pool = max esize0 MEMPOOL_ELEM_SIZE_MIN \<and> pchunk pool = pchunk0 \<and>
           flag pool = flag0 \<and> csize pool = max esize0 MEMPOOL_ELEM_SIZE_MIN * pchunk0"
proof -
  define e1 where "e1 = max esize0 MEMPOOL_ELEM_SIZE_MIN"
  define pool0 where "pool0 = \<lparr>chunks = [], esize = e1, csize = e1 * pchunk0,
                        pchunk = pchunk0, flag = flag0, free = None, totused = 0\<rparr>"
  have e16: "sizeof_freenode \<le> e1"
    by (simp add: e1_def MEMPOOL_ELEM_SIZE_MIN_def sizeof_ptr_def sizeof_freenode_def)
  have d0: "0 \<le> totelem div pchunk0" using te pc by (simp add: pos_imp_zdiv_nonneg_iff)
  have ok1: "int_ok (totelem div pchunk0)"
    using ok(2) d0 by (simp add: int_ok_def INT_MIN_def)
  have inv0: "create_inv pool0 h0 None"
    using pc e16 ok(1)
    by (simp add: create_inv_def pool_cfg_def pool_heap_def pool0_def all_slots_def e1_def int_ok_def)
  from create_loop_ok [OF inv0, of "totelem div pchunk0 + 1" 0] obtain pool h lt where
    l: "create_loop pool0 (totelem div pchunk0 + 1) 0 None h0 = Inr (pool, h)" and
    i: "create_inv pool h lt" and
    c: "chunks pool = [brk h0..<brk h0 + nat (totelem div pchunk0 + 1)]" and
    f: "esize pool = e1" "pchunk pool = pchunk0" "flag pool = flag0" "csize pool = e1 * pchunk0"
    by (auto simp: pool0_def)
  have m: "max e1 sizeof_freenode = e1" using e16 by simp
  have e1': "(if esize0 < MEMPOOL_ELEM_SIZE_MIN then MEMPOOL_ELEM_SIZE_MIN else esize0) = e1"
    by (simp add: e1_def)
  have "BLI_mempool_create esize0 totelem pchunk0 flag0 h0 = Inr (pool, h)"
    unfolding BLI_mempool_create_def e1' Let_def
    using pc te ok ok1 d0 l
    by (simp add: sdiv_nonneg e1_def [symmetric] m pool0_def)
  with i c f show ?thesis unfolding e1_def by blast
qed

lemma create_inv_pool_inv:
  assumes "create_inv pool h lt" "chunks pool \<noteq> []"
  shows "pool_inv_fl pool h [] (all_slots pool)"
  using assms unfolding create_inv_def pool_inv_fl_def
  by (auto simp: distinct_all_slots pool_heap_def INT_MAX_def)

subsection \<open>The invariant along a run\<close>

lemma same_cfg_refl [simp]: "same_cfg pool pool"
  by (simp add: same_cfg_def)

lemma same_cfg_trans: "same_cfg p q \<Longrightarrow> same_cfg q r \<Longrightarrow> same_cfg p r"
  by (simp add: same_cfg_def)

lemma alloc_int_ok:
  "BLI_mempool_alloc pool h = Inr x \<Longrightarrow> totused pool < INT_MAX \<and> int_ok (totused pool + 1)"
  unfolding BLI_mempool_alloc_def by (auto simp: int_ok_def split: if_splits)

lemma pool_inv_free_Nil: "pool_inv_fl pool h live [] \<Longrightarrow> free pool = None"
  by (simp add: pool_inv_fl_def)

lemma pool_inv_free_Cons: "pool_inv_fl pool h live (a # fl) \<Longrightarrow> free pool = Some a"
  by (simp add: pool_inv_fl_def)

lemma alloc_inv:
  assumes inv: "pool_inv pool h live" and al: "BLI_mempool_alloc pool h = Inr (r, pool', h')"
  shows "\<exists>a. r = Some a \<and> pool_inv pool' h' (live @ [a]) \<and> same_cfg pool pool'"
proof -
  from inv obtain fl where fl: "pool_inv_fl pool h live fl" by (auto simp: pool_inv_def)
  from alloc_int_ok [OF al] have ok: "totused pool < INT_MAX" "int_ok (totused pool + 1)" by simp_all
  show ?thesis
  proof (cases fl)
    case Nil
    from fl Nil have cfg: "pool_cfg pool" and fr: "free pool = None"
      by (simp_all add: pool_inv_fl_def)
    note eq = alloc_grow_eq [OF cfg fr ok(2), of h]
    note i = alloc_grow_inv [OF fl [unfolded Nil] ok(1)]
    from eq al have e: "r = Some (brk h, 0)"
      "pool' = pool\<lparr>totused := totused pool + 1, chunks := chunks pool @ [brk h],
                 free := (if pchunk pool = 1 then None else Some (brk h, esize pool))\<rparr>"
      "h' = (if allow_iter pool
            then (grown_heap pool h)\<lparr>node_freeword := (node_freeword (grown_heap pool h))((brk h, 0) \<mapsto> USEDWORD)\<rparr>
            else grown_heap pool h)"
      by simp_all
    have "pool_inv pool' h' (live @ [(brk h, 0)])"
      unfolding pool_inv_def e(2,3) using i by (rule exI)
    moreover have "same_cfg pool pool'" by (simp add: e(2) same_cfg_def)
    ultimately show ?thesis using e(1) by simp
  next
    case (Cons a fl')
    from alloc_pop [OF fl [unfolded Cons] ok(1)] obtain rr where
      eq: "BLI_mempool_alloc pool h =
       Inr (Some a, pool\<lparr>totused := totused pool + 1, free := rr\<rparr>,
            if allow_iter pool then h\<lparr>node_freeword := (node_freeword h)(a \<mapsto> USEDWORD)\<rparr> else h)"
      and i: "pool_inv_fl (pool\<lparr>totused := totused pool + 1, free := rr\<rparr>)
        (if allow_iter pool then h\<lparr>node_freeword := (node_freeword h)(a \<mapsto> USEDWORD)\<rparr> else h)
        (live @ [a]) fl'"
      by blast
    from eq al have e: "r = Some a" "pool' = pool\<lparr>totused := totused pool + 1, free := rr\<rparr>"
      "h' = (if allow_iter pool then h\<lparr>node_freeword := (node_freeword h)(a \<mapsto> USEDWORD)\<rparr> else h)"
      by simp_all
    have "pool_inv pool' h' (live @ [a])"
      unfolding pool_inv_def e(2,3) using i by (rule exI)
    moreover have "same_cfg pool pool'" by (simp add: e(2) same_cfg_def)
    ultimately show ?thesis using e(1) by simp
  qed
qed

lemma free_inv:
  assumes inv: "pool_inv pool h live" and a: "a \<in> set live"
    and fr: "BLI_mempool_free ndebug pool (Some a) h = Inr (pool', h')"
  shows "pool_inv pool' h' (remove1 a live) \<and> same_cfg pool pool'"
proof -
  from inv obtain fl where fl: "pool_inv_fl pool h live fl" by (auto simp: pool_inv_def)
  show ?thesis
  proof (cases "totused pool = 1")
    case False
    from free_push_eq [OF fl a False, of ndebug] fr free_push_inv [OF fl a]
    show ?thesis by (auto simp: pool_inv_def same_cfg_def)
  next
    case True
    from fl obtain first others where ch: "chunks pool = first # others"
      by (cases "chunks pool") (auto simp: pool_inv_fl_def)
    from fl True a have live: "live = [a]"
      by (cases live; cases "tl live") (auto simp: pool_inv_fl_def)
    from free_shrink_eq [OF fl a True ch, of ndebug] fr free_shrink_inv [OF fl a True ch] live
    show ?thesis by (auto simp: pool_inv_def same_cfg_def)
  qed
qed

lemma clear_inv':
  assumes inv: "pool_inv pool h live" and cl: "BLI_mempool_clear pool h = Inr (pool', h')"
  shows "pool_inv pool' h' [] \<and> same_cfg pool pool'"
proof -
  from inv obtain fl where fl: "pool_inv_fl pool h live fl" by (auto simp: pool_inv_def)
  then have cfg: "pool_cfg pool" and ph: "pool_heap pool h" by (simp_all add: pool_inv_fl_def)
  from fl obtain first others where ch: "chunks pool = first # others"
    by (cases "chunks pool") (auto simp: pool_inv_fl_def)
  from clear_eq [OF cfg ph ch] cl clear_inv [OF cfg ph ch]
  show ?thesis by (auto simp: pool_inv_def same_cfg_def)
qed

lemma step_inv:
  assumes "pool_inv pool h live" "step ndebug x (pool, h, live) = Inr (pool', h', live')"
  shows "pool_inv pool' h' live' \<and> same_cfg pool pool'"
proof (cases x)
  case Alloc
  with assms(2) obtain r where "BLI_mempool_alloc pool h = Inr (r, pool', h')"
    and "case r of None \<Rightarrow> False | Some a \<Rightarrow> live' = live @ [a]"
    by (auto elim!: bindE_InrE split: option.splits)
  with alloc_inv [OF assms(1)] show ?thesis by (auto split: option.splits)
next
  case (Free a)
  with assms(2) have "a \<in> set live" "BLI_mempool_free ndebug pool (Some a) h = Inr (pool', h')"
    "live' = remove1 a live"
    by (auto elim!: bindE_InrE split: if_splits)
  with free_inv [OF assms(1)] show ?thesis by auto
next
  case Clear
  with assms(2) have "BLI_mempool_clear pool h = Inr (pool', h')" "live' = []"
    by (auto elim!: bindE_InrE)
  with clear_inv' [OF assms(1)] show ?thesis by auto
qed

lemma run_inv:
  "pool_inv pool h live \<Longrightarrow> run ndebug ops (pool, h, live) = Inr (pool', h', live') \<Longrightarrow>
   pool_inv pool' h' live' \<and> same_cfg pool pool'"
proof (induction ops arbitrary: pool h live)
  case Nil
  then show ?case by simp
next
  case (Cons x xs)
  from Cons.prems(2) obtain pool1 h1 live1 where
    s: "step ndebug x (pool, h, live) = Inr (pool1, h1, live1)" and
    r: "run ndebug xs (pool1, h1, live1) = Inr (pool', h', live')"
    by (auto elim!: bindE_InrE)
  from step_inv [OF Cons.prems(1) s] have i1: "pool_inv pool1 h1 live1" and c1: "same_cfg pool pool1"
    by simp_all
  from Cons.IH [OF i1 r] c1 show ?case by (auto intro: same_cfg_trans)
qed

lemma create_int_ok:
  assumes "BLI_mempool_create esize0 totelem pchunk0 flag0 h0 = Inr x" "0 \<le> totelem" "1 \<le> pchunk0"
  shows "int_ok (max esize0 MEMPOOL_ELEM_SIZE_MIN * pchunk0)" "int_ok (totelem div pchunk0 + 1)"
proof -
  have m: "(if esize0 < MEMPOOL_ELEM_SIZE_MIN then MEMPOOL_ELEM_SIZE_MIN else esize0) =
           max esize0 MEMPOOL_ELEM_SIZE_MIN" by simp
  from assms show "int_ok (max esize0 MEMPOOL_ELEM_SIZE_MIN * pchunk0)"
    unfolding BLI_mempool_create_def m Let_def by (auto split: if_splits)
  from assms show "int_ok (totelem div pchunk0 + 1)"
    unfolding BLI_mempool_create_def m Let_def by (auto simp: sdiv_nonneg split: if_splits)
qed

lemma create_props:
  assumes c: "BLI_mempool_create esize0 totelem pchunk0 flag0 h0 = Inr (pool, h)"
    and te: "0 \<le> totelem" and pc: "1 \<le> pchunk0"
  shows "\<exists>lt. create_inv pool h lt"
    and "chunks pool = [brk h0..<brk h0 + nat (totelem div pchunk0 + 1)]"
    and "esize pool = max esize0 MEMPOOL_ELEM_SIZE_MIN" and "pchunk pool = pchunk0"
    and "flag pool = flag0" and "csize pool = max esize0 MEMPOOL_ELEM_SIZE_MIN * pchunk0"
    and "chunks pool \<noteq> []"
proof -
  from create_ok [OF te pc create_int_ok [OF c te pc], of flag0 h0] c
  obtain lt where i: "create_inv pool h lt"
    and ch: "chunks pool = [brk h0..<brk h0 + nat (totelem div pchunk0 + 1)]"
    and f: "esize pool = max esize0 MEMPOOL_ELEM_SIZE_MIN" "pchunk pool = pchunk0"
      "flag pool = flag0" "csize pool = max esize0 MEMPOOL_ELEM_SIZE_MIN * pchunk0"
    by auto
  from i show "\<exists>lt. create_inv pool h lt" ..
  show "chunks pool = [brk h0..<brk h0 + nat (totelem div pchunk0 + 1)]" by (rule ch)
  show "esize pool = max esize0 MEMPOOL_ELEM_SIZE_MIN" "pchunk pool = pchunk0"
    "flag pool = flag0" "csize pool = max esize0 MEMPOOL_ELEM_SIZE_MIN * pchunk0" by (rule f)+
  have "0 \<le> totelem div pchunk0" using te pc by (simp add: pos_imp_zdiv_nonneg_iff)
  then show "chunks pool \<noteq> []" unfolding ch by simp
qed

lemma session_inv:
  assumes s: "session esize0 totelem pchunk0 flag0 h0 ndebug ops = Inr (pool, h, live)"
    and te: "0 \<le> totelem" and pc: "1 \<le> pchunk0"
  shows "pool_inv pool h live" and "flag pool = flag0" and "pchunk pool = pchunk0"
    and "esize pool = max esize0 MEMPOOL_ELEM_SIZE_MIN"
proof -
  from s obtain pool0 h1 where
    c: "BLI_mempool_create esize0 totelem pchunk0 flag0 h0 = Inr (pool0, h1)" and
    r: "run ndebug ops (pool0, h1, []) = Inr (pool, h, live)"
    by (rule sessionE)
  note p = create_props [OF c te pc]
  from p(1) obtain lt where "create_inv pool0 h1 lt" ..
  from create_inv_pool_inv [OF this p(7)] have "pool_inv pool0 h1 []" by (auto simp: pool_inv_def)
  from run_inv [OF this r] p
  show "pool_inv pool h live" and "flag pool = flag0" and "pchunk pool = pchunk0"
    and "esize pool = max esize0 MEMPOOL_ELEM_SIZE_MIN"
    by (simp_all add: same_cfg_def)
qed

lemma holds_afterE:
  assumes "holds_after r P"
  obtains pool h live where "r = Inr (pool, h, live)" "P pool h live"
  using assms unfolding holds_after_def by (auto split: sum.splits)

lemma chunk_slots_Cons:
  "pool_cfg pool \<Longrightarrow>
   chunk_slots pool c = (c, 0) # slots (esize pool) c (Suc 0) (nat (pchunk pool))"
  using pool_cfg_pos [of pool] by (simp add: chunk_slots_def slots_Cons)

lemma length_chunk_slots: "length (chunk_slots pool c) = nat (pchunk pool)"
  by (simp add: chunk_slots_def slots_def)

subsection \<open>Iteration\<close>

lemma iter_rest_Nil [simp]: "curchunk iter = [] \<Longrightarrow> iter_rest pool iter = []"
  by (simp add: iter_rest_def)

lemma concat_chunk_slots_rest:
  "iter_rest pool \<lparr>curchunk = rest, curindex = 0\<rparr> = concat (map (chunk_slots pool) rest)"
  by (cases rest) (simp_all add: iter_rest_def chunk_slots_def)

lemma iter_advance:
  assumes cfg: "pool_cfg pool" and ok: "iter_ok pool iter" and cc: "curchunk iter = c # rest"
  defines "nxt \<equiv> (if curindex iter + 1 \<ge> pchunk pool
                          then \<lparr>curchunk = rest, curindex = 0\<rparr>
                          else \<lparr>curchunk = c # rest, curindex = curindex iter + 1\<rparr>)"
  shows "iter_rest pool iter = (c, esize pool * curindex iter) # iter_rest pool nxt"
    and "iter_ok pool nxt"
    and "(c, esize pool * curindex iter) \<in> set (all_slots pool)"
proof -
  define i where "i = nat (curindex iter)"
  define n where "n = nat (pchunk pool)"
  from ok cc have r: "0 \<le> curindex iter" "curindex iter < pchunk pool" and cs: "c \<in> set (chunks pool)"
    "set rest \<subseteq> set (chunks pool)"
    by (auto simp: iter_ok_def)
  then have i: "int i = curindex iter" "i < n" by (simp_all add: i_def n_def)
  have sl: "slots (esize pool) c i n = (c, esize pool * curindex iter) # slots (esize pool) c (Suc i) n"
    using slots_Cons [OF i(2), of "esize pool" c] i(1) by simp
  show "iter_rest pool iter = (c, esize pool * curindex iter) # iter_rest pool nxt"
  proof (cases "curindex iter + 1 \<ge> pchunk pool")
    case True
    with r have "Suc i = n" by (simp add: i_def n_def)
    then have "slots (esize pool) c (Suc i) n = []" by (simp add: slots_def)
    with True sl show ?thesis
      by (simp add: nxt_def concat_chunk_slots_rest) (simp add: iter_rest_def cc i_def n_def)
  next
    case False
    have "nat (curindex iter + 1) = Suc i" using r by (simp add: i_def)
    with False sl show ?thesis
      by (simp add: nxt_def iter_rest_def cc i_def [symmetric] n_def [symmetric])
  qed
  show "iter_ok pool nxt" using r cs by (auto simp: nxt_def iter_ok_def)
  have "(c, esize pool * int i) \<in> slot_set (esize pool) c 0 n"
    using i(2) by (intro slot_in_set) simp_all
  with cs(1) show "(c, esize pool * curindex iter) \<in> set (all_slots pool)"
    by (simp add: in_all_slots chunk_slots_def i(1) n_def)
qed

lemma iter_int_ok:
  assumes cfg: "pool_cfg pool" and r: "0 \<le> i" "i < pchunk pool"
  shows "int_ok (esize pool * i)" "int_ok (i + 1)"
proof -
  from cfg have e: "1 \<le> esize pool" and c: "esize pool * pchunk pool \<le> INT_MAX"
    by (simp_all add: pool_cfg_def sizeof_freenode_def)
  have 1: "esize pool * i \<le> esize pool * pchunk pool" using e r by (intro mult_left_mono) simp_all
  have 2: "1 * pchunk pool \<le> esize pool * pchunk pool" using e r by (intro mult_right_mono) simp_all
  have 3: "0 \<le> esize pool * i" using e r by simp
  from 1 3 c show "int_ok (esize pool * i)" by (simp add: int_ok_def INT_MIN_def)
  have "i + 1 \<le> INT_MAX" using 2 c r by linarith
  moreover have "INT_MIN \<le> i + 1" using r by (simp add: INT_MIN_def)
  ultimately show "int_ok (i + 1)" by (simp add: int_ok_def)
qed

lemma iterstep_loop_spec:
  assumes ctx: "iter_ctx pool h"
  shows "iter_ok pool iter \<Longrightarrow>
    \<exists>iter'. iter_ok pool iter' \<and>
      (case dropWhile (\<lambda>a. node_freeword h a = Some FREEWORD) (iter_rest pool iter) of
         [] \<Rightarrow> iterstep_loop pool h iter = Inr (None, iter') \<and> iter_rest pool iter' = []
       | a # as \<Rightarrow> iterstep_loop pool h iter = Inr (Some a, iter') \<and> iter_rest pool iter' = as)"
proof (induction "length (iter_rest pool iter)" arbitrary: iter rule: less_induct)
  case less
  from ctx have cfg: "pool_cfg pool" and ph: "pool_heap pool h" by (simp_all add: iter_ctx_def)
  show ?case
  proof (cases "curchunk iter")
    case Nil
    then show ?thesis using less.prems
      by (intro exI [of _ iter]) (simp add: iterstep_loop.simps [of pool h iter])
  next
    case (Cons c rest)
    define nxt where "nxt = (if curindex iter + 1 \<ge> pchunk pool
                          then \<lparr>curchunk = rest, curindex = 0\<rparr>
                          else \<lparr>curchunk = c # rest, curindex = curindex iter + 1\<rparr>)"
    define a0 where "a0 = (c, esize pool * curindex iter)"
    note adv = iter_advance [OF cfg less.prems Cons, folded nxt_def a0_def]
    from less.prems Cons have r: "0 \<le> curindex iter" "curindex iter < pchunk pool"
      by (auto simp: iter_ok_def)
    note io = iter_int_ok [OF cfg r]
    from adv(3) ctx obtain w where w: "node_freeword h a0 = Some w" by (auto simp: iter_ctx_def)
    from adv(3) have "valid_node h a0" by (rule all_slot_valid [OF cfg ph])
    with w have g: "get_freeword (Some (c, esize pool * curindex iter)) h = Inr w"
      by (simp add: get_freeword_ok a0_def)
    show ?thesis
    proof (cases "w = FREEWORD")
      case True
      have eq: "iterstep_loop pool h iter = iterstep_loop pool h nxt"
        by (subst iterstep_loop.simps) (simp add: Cons io g True Let_def nxt_def)
      have "length (iter_rest pool nxt) < length (iter_rest pool iter)" by (simp add: adv(1))
      note ih = less.hyps [OF this adv(2)]
      have dw: "dropWhile (\<lambda>a. node_freeword h a = Some FREEWORD) (iter_rest pool iter) =
                dropWhile (\<lambda>a. node_freeword h a = Some FREEWORD) (iter_rest pool nxt)"
        using w True by (simp add: adv(1))
      show ?thesis unfolding dw eq by (rule ih)
    next
      case False
      have eq: "iterstep_loop pool h iter = Inr (Some a0, nxt)"
        by (subst iterstep_loop.simps) (simp add: Cons io g False Let_def nxt_def a0_def)
      have dw: "dropWhile (\<lambda>a. node_freeword h a = Some FREEWORD) (iter_rest pool iter) =
                a0 # iter_rest pool nxt"
        using w False by (simp add: adv(1))
      show ?thesis
        unfolding dw using adv(2) eq by (intro exI [of _ nxt]) simp
    qed
  qed
qed

lemma filter_dropWhile_Nil: "dropWhile P xs = [] \<Longrightarrow> filter (\<lambda>x. \<not> P x) xs = []"
  by (induction xs) (auto split: if_splits)

lemma filter_dropWhile_Cons:
  "dropWhile P xs = a # as \<Longrightarrow> filter (\<lambda>x. \<not> P x) xs = a # filter (\<lambda>x. \<not> P x) as"
  by (induction xs) (auto split: if_splits)

lemma length_dropWhile_Cons: "dropWhile P xs = a # as \<Longrightarrow> length as < length xs"
  using length_dropWhile_le [of P xs] by simp

lemma as_table_loop_spec:
  assumes ctx: "iter_ctx pool h" and nz: "totused pool \<noteq> 0"
  shows "iter_ok pool iter \<Longrightarrow>
    as_table_loop pool h iter =
      Inr (filter (\<lambda>a. node_freeword h a \<noteq> Some FREEWORD) (iter_rest pool iter))"
proof (induction "length (iter_rest pool iter)" arbitrary: iter rule: less_induct)
  case less
  from iterstep_loop_spec [OF ctx less.prems] obtain iter' where
    ok': "iter_ok pool iter'" and
    sp: "case dropWhile (\<lambda>a. node_freeword h a = Some FREEWORD) (iter_rest pool iter) of
         [] \<Rightarrow> iterstep_loop pool h iter = Inr (None, iter') \<and> iter_rest pool iter' = []
       | a # as \<Rightarrow> iterstep_loop pool h iter = Inr (Some a, iter') \<and> iter_rest pool iter' = as"
    by blast
  show ?case
  proof (cases "dropWhile (\<lambda>a. node_freeword h a = Some FREEWORD) (iter_rest pool iter)")
    case Nil
    with sp have "iterstep_loop pool h iter = Inr (None, iter')" by simp
    then have "as_table_loop pool h iter = Inr []"
      by (subst as_table_loop.simps) (simp add: BLI_mempool_iterstep_def nz)
    with filter_dropWhile_Nil [OF Nil] show ?thesis by simp
  next
    case (Cons a as)
    with sp have st: "iterstep_loop pool h iter = Inr (Some a, iter')" and rs: "iter_rest pool iter' = as"
      by simp_all
    from length_dropWhile_Cons [OF Cons] rs
    have "length (iter_rest pool iter') < length (iter_rest pool iter)" by simp
    from less.hyps [OF this ok'] have
      "as_table_loop pool h iter' = Inr (filter (\<lambda>a. node_freeword h a \<noteq> Some FREEWORD) as)"
      by (simp add: rs)
    then have "as_table_loop pool h iter =
        Inr (a # filter (\<lambda>a. node_freeword h a \<noteq> Some FREEWORD) as)"
      by (subst as_table_loop.simps) (simp add: BLI_mempool_iterstep_def nz st)
    with filter_dropWhile_Cons [OF Cons] show ?thesis by simp
  qed
qed

lemma iter_new_ok:
  "iter_ok pool \<lparr>curchunk = chunks pool, curindex = 0\<rparr> \<longleftrightarrow> (chunks pool \<noteq> [] \<longrightarrow> 0 < pchunk pool)"
  by (auto simp: iter_ok_def)

lemma iter_new_rest: "iter_rest pool \<lparr>curchunk = chunks pool, curindex = 0\<rparr> = all_slots pool"
  by (simp add: concat_chunk_slots_rest all_slots_def)

text \<open>With iteration enabled, the slots that do not carry \<open>FREEWORD\<close> are the live ones.\<close>

lemma inv_iter:
  assumes inv: "pool_inv pool h live" and it: "allow_iter pool"
  shows "iter_ctx pool h"
    and "iter_ok pool \<lparr>curchunk = chunks pool, curindex = 0\<rparr>"
    and "filter (\<lambda>a. node_freeword h a \<noteq> Some FREEWORD) (all_slots pool) =
         filter (\<lambda>a. a \<in> set live) (all_slots pool)"
    and "distinct (filter (\<lambda>a. a \<in> set live) (all_slots pool))"
    and "set (filter (\<lambda>a. a \<in> set live) (all_slots pool)) = set live"
    and "int (length (filter (\<lambda>a. a \<in> set live) (all_slots pool))) = totused pool"
proof -
  from inv obtain fl where fl: "pool_inv_fl pool h live fl" by (auto simp: pool_inv_def)
  then have cfg: "pool_cfg pool" and ph: "pool_heap pool h"
    and all: "set fl \<union> set live = set (all_slots pool)" and dj: "set fl \<inter> set live = {}"
    and tf: "\<forall>a \<in> set fl. node_freeword h a = Some FREEWORD"
    and tl: "\<forall>a \<in> set live. node_freeword h a = Some USEDWORD"
    and dl: "distinct live" and tu: "totused pool = int (length live)"
    using it by (simp_all add: pool_inv_fl_def)
  have tag: "node_freeword h a \<noteq> Some FREEWORD \<longleftrightarrow> a \<in> set live" if "a \<in> set (all_slots pool)" for a
    using that all dj tf tl FREEWORD_neq_USEDWORD by auto
  have "node_freeword h a \<noteq> None" if "a \<in> set (all_slots pool)" for a
  proof -
    from that all have "a \<in> set fl \<or> a \<in> set live" by blast
    with tf tl show ?thesis by auto
  qed
  then show "iter_ctx pool h"
    unfolding iter_ctx_def using cfg ph by blast
  show "iter_ok pool \<lparr>curchunk = chunks pool, curindex = 0\<rparr>"
    using cfg by (simp add: iter_new_ok pool_cfg_def)
  show "filter (\<lambda>a. node_freeword h a \<noteq> Some FREEWORD) (all_slots pool) =
         filter (\<lambda>a. a \<in> set live) (all_slots pool)"
    by (rule filter_cong) (simp_all add: tag)
  have d: "distinct (all_slots pool)" using cfg ph by (simp add: distinct_all_slots pool_heap_def)
  then show dx: "distinct (filter (\<lambda>a. a \<in> set live) (all_slots pool))" by simp
  show sx: "set (filter (\<lambda>a. a \<in> set live) (all_slots pool)) = set live" using all by auto
  from dx sx dl have "length (filter (\<lambda>a. a \<in> set live) (all_slots pool)) = length live"
    by (metis distinct_card)
  with tu show "int (length (filter (\<lambda>a. a \<in> set live) (all_slots pool))) = totused pool" by simp
qed

lemma as_table_spec:
  assumes inv: "pool_inv pool h live" and it: "allow_iter pool"
  shows "BLI_mempool_as_table ndebug pool h = Inr (filter (\<lambda>a. a \<in> set live) (all_slots pool))"
proof -
  note i = inv_iter [OF inv it]
  have l: "as_table_loop pool h \<lparr>curchunk = chunks pool, curindex = 0\<rparr> =
           Inr (filter (\<lambda>a. a \<in> set live) (all_slots pool))"
  proof (cases "totused pool = 0")
    case True
    with i(6) have "filter (\<lambda>a. a \<in> set live) (all_slots pool) = []" by simp
    moreover have "as_table_loop pool h \<lparr>curchunk = chunks pool, curindex = 0\<rparr> = Inr []"
      by (subst as_table_loop.simps) (simp add: BLI_mempool_iterstep_def True)
    ultimately show ?thesis by simp
  next
    case False
    from as_table_loop_spec [OF i(1) False i(2)] show ?thesis
      by (simp add: iter_new_rest i(3))
  qed
  show ?thesis
    unfolding BLI_mempool_as_table_def BLI_mempool_iternew_def
    using it l i(6) by simp
qed

lemma findelem_loop_spec:
  assumes ctx: "iter_ctx pool h" and nz: "totused pool \<noteq> 0"
  shows "iter_ok pool iter \<Longrightarrow> 0 \<le> index \<Longrightarrow> index \<le> INT_MAX \<Longrightarrow>
    nat index \<le> length (filter (\<lambda>a. node_freeword h a \<noteq> Some FREEWORD) (iter_rest pool iter)) \<Longrightarrow>
    findelem_loop pool h index elem iter =
      Inr (if index = 0 then elem
           else Some (filter (\<lambda>a. node_freeword h a \<noteq> Some FREEWORD) (iter_rest pool iter) !
                        (nat index - 1)))"
proof (induction "nat index" arbitrary: index elem iter)
  case 0
  then have "index = 0" by simp
  then show ?case by (simp add: findelem_loop.simps [of pool h 0])
next
  case (Suc k)
  define ys where "ys = filter (\<lambda>a. node_freeword h a \<noteq> Some FREEWORD) (iter_rest pool iter)"
  from Suc.hyps(2) have pos: "0 < index" "index \<noteq> 0" and k: "k = nat (index - 1)" by simp_all
  from Suc.prems(3) pos have io: "int_ok (index - 1)" by (simp add: int_ok_def INT_MIN_def)
  from iterstep_loop_spec [OF ctx Suc.prems(1)] obtain iter' where
    ok': "iter_ok pool iter'" and
    sp: "case dropWhile (\<lambda>a. node_freeword h a = Some FREEWORD) (iter_rest pool iter) of
         [] \<Rightarrow> iterstep_loop pool h iter = Inr (None, iter') \<and> iter_rest pool iter' = []
       | a # as \<Rightarrow> iterstep_loop pool h iter = Inr (Some a, iter') \<and> iter_rest pool iter' = as"
    by blast
  from Suc.prems(4) Suc.hyps(2) have ne: "ys \<noteq> []" by (auto simp: ys_def)
  obtain a as where dw: "dropWhile (\<lambda>a. node_freeword h a = Some FREEWORD) (iter_rest pool iter) = a # as"
  proof (cases "dropWhile (\<lambda>a. node_freeword h a = Some FREEWORD) (iter_rest pool iter)")
    case Nil
    from filter_dropWhile_Nil [OF this] ne show ?thesis by (simp add: ys_def)
  next
    case (Cons a as)
    then show ?thesis by (rule that)
  qed
  with sp have st: "iterstep_loop pool h iter = Inr (Some a, iter')" and rs: "iter_rest pool iter' = as"
    by simp_all
  define ys' where "ys' = filter (\<lambda>a. node_freeword h a \<noteq> Some FREEWORD) as"
  from filter_dropWhile_Cons [OF dw] have ys: "ys = a # ys'" by (simp add: ys_def ys'_def)
  have le: "nat (index - 1) \<le> length (filter (\<lambda>a. node_freeword h a \<noteq> Some FREEWORD) (iter_rest pool iter'))"
    using Suc.prems(4) Suc.hyps(2) ys by (simp add: rs ys_def [symmetric] ys'_def [symmetric])
  have "findelem_loop pool h (index - 1) (Some a) iter' =
      Inr (if index - 1 = 0 then Some a else Some (ys' ! (nat (index - 1) - 1)))"
    using Suc.hyps(1) [OF k ok' _ _ le, of "Some a"] pos Suc.prems(3)
    by (simp add: rs ys'_def)
  moreover have "(if index - 1 = 0 then Some a else Some (ys' ! (nat (index - 1) - 1))) =
      Some (ys ! (nat index - 1))"
  proof (cases "index - 1 = 0")
    case True
    then show ?thesis by (simp add: ys)
  next
    case False
    with pos have "nat index - 1 = Suc (nat (index - 1) - 1)" by simp
    with False show ?thesis by (simp add: ys)
  qed
  ultimately have "findelem_loop pool h (index - 1) (Some a) iter' = Inr (Some (ys ! (nat index - 1)))"
    by simp
  then show ?case
    by (subst findelem_loop.simps) (simp add: pos io BLI_mempool_iterstep_def nz st ys_def)
qed

lemma findelem_spec:
  assumes inv: "pool_inv pool h live" and it: "allow_iter pool"
  shows "BLI_mempool_findelem ndebug pool h index =
           Inr (if 0 \<le> index \<and> index < totused pool
                then Some (filter (\<lambda>a. a \<in> set live) (all_slots pool) ! nat index)
                else None)"
proof (cases "0 \<le> index \<and> index < totused pool")
  case False
  then show ?thesis using it by (auto simp: BLI_mempool_findelem_def)
next
  case True
  note i = inv_iter [OF inv it]
  define xs where "xs = filter (\<lambda>a. a \<in> set live) (all_slots pool)"
  define iter0 where "iter0 = \<lparr>curchunk = chunks pool, curindex = 0\<rparr>"
  from True have nz: "totused pool \<noteq> 0" by auto
  from inv have "totused pool \<le> INT_MAX" by (auto simp: pool_inv_def pool_inv_fl_def)
  with True have im: "index \<le> INT_MAX" by simp
  have xs': "filter (\<lambda>a. node_freeword h a \<noteq> Some FREEWORD) (iter_rest pool iter0) = xs"
    by (simp add: iter0_def iter_new_rest i(3) xs_def)
  from True i(6) have len: "nat index < length xs" unfolding xs_def by linarith
  then have ne: "xs \<noteq> []" by auto
  from iterstep_loop_spec [OF i(1) i(2), folded iter0_def] obtain iter' where
    ok': "iter_ok pool iter'" and
    sp: "case dropWhile (\<lambda>a. node_freeword h a = Some FREEWORD) (iter_rest pool iter0) of
         [] \<Rightarrow> iterstep_loop pool h iter0 = Inr (None, iter') \<and> iter_rest pool iter' = []
       | a # as \<Rightarrow> iterstep_loop pool h iter0 = Inr (Some a, iter') \<and> iter_rest pool iter' = as"
    by blast
  obtain a as where dw: "dropWhile (\<lambda>a. node_freeword h a = Some FREEWORD) (iter_rest pool iter0) = a # as"
  proof (cases "dropWhile (\<lambda>a. node_freeword h a = Some FREEWORD) (iter_rest pool iter0)")
    case Nil
    from filter_dropWhile_Nil [OF this] ne show ?thesis by (simp add: xs')
  next
    case (Cons a as)
    then show ?thesis by (rule that)
  qed
  with sp have st: "iterstep_loop pool h iter0 = Inr (Some a, iter')" and rs: "iter_rest pool iter' = as"
    by simp_all
  define ys where "ys = filter (\<lambda>a. node_freeword h a \<noteq> Some FREEWORD) as"
  from filter_dropWhile_Cons [OF dw] have xs: "xs = a # ys" by (simp add: xs' ys_def)
  have le: "nat index \<le> length (filter (\<lambda>a. node_freeword h a \<noteq> Some FREEWORD) (iter_rest pool iter'))"
    using len xs by (simp add: rs ys_def)
  from True have i0: "0 \<le> index" by simp
  have "findelem_loop pool h index (Some a) iter' =
      Inr (if index = 0 then Some a else Some (ys ! (nat index - 1)))"
    using findelem_loop_spec [OF i(1) nz ok' i0 im le, of "Some a"] by (simp add: rs ys_def)
  moreover have "(if index = 0 then Some a else Some (ys ! (nat index - 1))) = Some (xs ! nat index)"
  proof (cases "index = 0")
    case True
    then show ?thesis by (simp add: xs)
  next
    case False
    with i0 have "nat index = Suc (nat index - 1)" by simp
    then have "xs ! nat index = ys ! (nat index - 1)" unfolding xs by (metis nth_Cons_Suc)
    with False show ?thesis by simp
  qed
  ultimately have "findelem_loop pool h index (Some a) iter' = Inr (Some (xs ! nat index))" by simp
  then show ?thesis
    unfolding BLI_mempool_findelem_def BLI_mempool_iternew_def
    using it True nz st
    by (simp add: BLI_mempool_iterstep_def iter0_def [symmetric] xs_def)
qed

section \<open>The claims\<close>

text \<open>
  C1. On a pool made by \<^verbatim>\<open>BLI_mempool_create\<close>, after any interleaving of allocations and
  frees (no clearing), \<^verbatim>\<open>BLI_mempool_count\<close> returns the number of allocations performed
  minus the number of frees performed.
\<close>

theorem C1_count_is_allocs_minus_frees:
  assumes "session esize0 totelem pchunk0 flag0 h0 ndebug ops = Inr (pool, h, live)"
    and "Clear \<notin> set ops"
  shows "BLI_mempool_count pool =
         int (count_list ops Alloc) - int (length (filter is_free ops))"
proof -
  from assms(1) obtain pool0 h1 where
    c: "BLI_mempool_create esize0 totelem pchunk0 flag0 h0 = Inr (pool0, h1)" and
    r: "run ndebug ops (pool0, h1, []) = Inr (pool, h, live)"
    by (rule sessionE)
  from run_totused [OF r assms(2)] create_totused [OF c]
  show ?thesis by (simp add: BLI_mempool_count_def)
qed

theorem C1_witness:
  "\<exists>pool h live.
     session 16 4 4 2 empty_heap False [Alloc, Alloc, Free (0, 0), Alloc] = Inr (pool, h, live) \<and>
     BLI_mempool_count pool = 2"
proof -
  have "succeeds (session 16 4 4 2 empty_heap False [Alloc, Alloc, Free (0, 0), Alloc])"
    by code_simp
  then obtain pool h live where
    s: "session 16 4 4 2 empty_heap False [Alloc, Alloc, Free (0, 0), Alloc] = Inr (pool, h, live)"
    by (elim succeeds_Inr) (metis prod_cases3)
  from C1_count_is_allocs_minus_frees [OF s] have "BLI_mempool_count pool = 2" by simp
  with s show ?thesis by blast
qed

text \<open>
  C2. When a call of \<^verbatim>\<open>BLI_mempool_free\<close> brings the live count to zero (the last live
  reference is freed), the call succeeds and exactly one chunk remains, the one that was
  first; the free list is the chain of all the \<^verbatim>\<open>pchunk\<close> slots of that chunk; the other
  chunks are released and no free-list entry lies in them; and the next allocation
  succeeds from the retained chunk without allocating a chunk.
\<close>

theorem C2_free_to_zero_shrinks:
  assumes "session esize0 totelem pchunk0 flag0 h0 ndebug ops = Inr (pool, h, live)"
    and "0 \<le> totelem" and "1 \<le> pchunk0"
    and "a \<in> set live"
    and "BLI_mempool_count pool = 1"
  shows "\<exists>pool' h'.
         BLI_mempool_free ndebug pool (Some a) h = Inr (pool', h') \<and>
         BLI_mempool_count pool' = 0 \<and>
         chunks pool' = [hd (chunks pool)] \<and>
         fl_seg (node_next h') (free pool') (chunk_slots pool' (hd (chunks pool))) None \<and>
         length (chunk_slots pool' (hd (chunks pool))) = nat (pchunk pool') \<and>
         (\<forall>x \<in> set (chunk_slots pool' (hd (chunks pool))). fst x = hd (chunks pool)) \<and>
         (\<forall>c \<in> set (tl (chunks pool)). blocks h' c = None) \<and>
         (\<forall>x. fst x \<in> set (tl (chunks pool)) \<longrightarrow> node_next h' x = None) \<and>
         (\<exists>pool'' h''. BLI_mempool_alloc pool' h' = Inr (Some (hd (chunks pool), 0), pool'', h'') \<and>
            chunks pool'' = chunks pool' \<and> blocks h'' = blocks h' \<and> brk h'' = brk h')"
proof -
  note s = session_inv [OF assms(1-3)]
  from s(1) obtain fl where fl: "pool_inv_fl pool h live fl" by (auto simp: pool_inv_def)
  then have cfg: "pool_cfg pool" and ph: "pool_heap pool h" by (simp_all add: pool_inv_fl_def)
  from fl obtain first others where ch: "chunks pool = first # others"
    by (cases "chunks pool") (auto simp: pool_inv_fl_def)
  from assms(5) have one: "totused pool = 1" by (simp add: BLI_mempool_count_def)
  define H where "H = shrunk_heap pool first others (freed_heap pool a h)"
  define P where "P = pool\<lparr>totused := 0, chunks := [first], free := Some (first, 0)\<rparr>"
  have e: "BLI_mempool_free ndebug pool (Some a) h = Inr (P, H)"
    using free_shrink_eq [OF fl assms(4) one ch, of ndebug] by (simp add: P_def H_def)
  from free_shrink_inv [OF fl assms(4) one ch]
  have i: "pool_inv_fl P H [] (chunk_slots pool first)" by (simp add: P_def H_def)
  have cs: "chunk_slots P first = chunk_slots pool first" by (simp add: P_def)
  from ph ch have fo: "first \<notin> set others" by (auto simp: pool_heap_def)
  have 1: "chunks P = [first]" "BLI_mempool_count P = 0"
    by (simp_all add: P_def BLI_mempool_count_def)
  from i have 2: "fl_seg (node_next H) (free P) (chunk_slots P first) None"
    by (simp add: pool_inv_fl_def cs)
  have 5: "\<forall>c \<in> set others. blocks H c = None"
    by (simp add: H_def shrunk_heap_simps)
  have 6: "node_next H x = None" if "fst x \<in> set others" for x
  proof -
    from that fo have "fst x \<noteq> first" by auto
    then have "x \<noteq> (first, esize pool * (pchunk pool - 1))"
      "x \<notin> slot_set (esize pool) first 0 (nat (pchunk pool))"
      by (auto dest: slot_set_fst)
    with that show ?thesis by (simp add: H_def shrunk_heap_simps)
  qed
  from i have i': "pool_inv_fl P H [] ((first, 0) # slots (esize pool) first (Suc 0) (nat (pchunk pool)))"
    by (simp add: chunk_slots_Cons [OF cfg])
  have "totused P < INT_MAX" by (simp add: P_def INT_MAX_def)
  from alloc_pop [OF i' this] have
    7: "\<exists>pool'' h''. BLI_mempool_alloc P H = Inr (Some (first, 0), pool'', h'') \<and>
            chunks pool'' = chunks P \<and> blocks h'' = blocks H \<and> brk h'' = brk H"
    by auto
  show ?thesis
    unfolding ch using e 1 2 5 6 7
    by (intro exI [of _ P] exI [of _ H]) (auto simp: length_chunk_slots dest: fst_chunk_slots)
qed

theorem C2_witness:
  "\<exists>pool h live pool' h'.
     session 16 0 2 2 empty_heap False [Alloc, Alloc, Alloc, Alloc, Alloc, Free (0, 0), Free (1, 16),
        Free (2, 0), Free (0, 16)] = Inr (pool, h, live) \<and>
     chunks pool = [0, 1, 2] \<and>
     BLI_mempool_free False pool (Some (1, 0)) h = Inr (pool', h') \<and>
     BLI_mempool_count pool' = 0 \<and>
     chunks pool' = [0] \<and>
     blocks h' 1 = None \<and> blocks h' 2 = None"
proof -
  have "holds_after (session 16 0 2 2 empty_heap False [Alloc, Alloc, Alloc, Alloc, Alloc, Free (0, 0),
        Free (1, 16), Free (2, 0), Free (0, 16)])
       (\<lambda>pool h live. (1, 0) \<in> set live \<and> chunks pool = [0, 1, 2] \<and> BLI_mempool_count pool = 1)"
    by code_simp
  then obtain pool h live where
    s: "session 16 0 2 2 empty_heap False [Alloc, Alloc, Alloc, Alloc, Alloc, Free (0, 0),
        Free (1, 16), Free (2, 0), Free (0, 16)] = Inr (pool, h, live)" and
    p: "(1, 0) \<in> set live \<and> chunks pool = [0, 1, 2] \<and> BLI_mempool_count pool = 1"
    by (rule holds_afterE)
  have "(0::int) \<le> 0" "(1::int) \<le> 2" by simp_all
  from C2_free_to_zero_shrinks [OF s this, where a = "(1, 0)"] p obtain pool' h' where
    "BLI_mempool_free False pool (Some (1, 0)) h = Inr (pool', h')" "BLI_mempool_count pool' = 0"
    "chunks pool' = [0]" "blocks h' 1 = None" "blocks h' 2 = None"
    by auto
  with s p show ?thesis by blast
qed

text \<open>
  C3. For a pool created with the iteration flag, after any run of allocations and frees of
  live references (and clearings), iterating from a new iterator until
  \<^verbatim>\<open>BLI_mempool_iterstep\<close> returns \<^verbatim>\<open>NULL\<close>, as \<^verbatim>\<open>BLI_mempool_as_table\<close> does, succeeds and
  yields the live references and nothing else, each once, as many as \<^verbatim>\<open>BLI_mempool_count\<close>
  says, in the order of the chunk list and in slot order within a chunk.
\<close>

theorem C3_iteration_yields_live:
  assumes "session esize0 totelem pchunk0 flag0 h0 ndebug ops = Inr (pool, h, live)"
    and "0 \<le> totelem" and "1 \<le> pchunk0"
    and "(flag0 AND BLI_MEMPOOL_ALLOW_ITER) \<noteq> 0"
  shows "\<exists>xs. BLI_mempool_as_table ndebug pool h = Inr xs \<and>
           xs = filter (\<lambda>a. a \<in> set live) (all_slots pool) \<and>
           int (length xs) = BLI_mempool_count pool \<and>
           distinct xs \<and> set xs = set live"
proof -
  note s = session_inv [OF assms(1-3)]
  from s(2) assms(4) have it: "allow_iter pool" by (simp add: allow_iter_def)
  note i = inv_iter [OF s(1) it]
  from as_table_spec [OF s(1) it, of ndebug] i(4,5,6) show ?thesis
    by (simp add: BLI_mempool_count_def)
qed

theorem C3_witness:
  "\<exists>pool h live.
     session 16 4 4 2 empty_heap False
       [Alloc, Alloc, Alloc, Alloc, Alloc, Alloc, Free (0, 16), Free (0, 48)] = Inr (pool, h, live) \<and>
     BLI_mempool_count pool = 4 \<and>
     BLI_mempool_as_table False pool h = Inr [(0, 0), (0, 32), (1, 0), (1, 16)]"
proof -
  have "holds_after (session 16 4 4 2 empty_heap False
       [Alloc, Alloc, Alloc, Alloc, Alloc, Alloc, Free (0, 16), Free (0, 48)])
       (\<lambda>pool h live. live = [(0, 0), (0, 32), (1, 0), (1, 16)] \<and> chunks pool = [0, 1] \<and>
          esize pool = 16 \<and> pchunk pool = 4)"
    by code_simp
  then obtain pool h live where
    s: "session 16 4 4 2 empty_heap False
       [Alloc, Alloc, Alloc, Alloc, Alloc, Alloc, Free (0, 16), Free (0, 48)] = Inr (pool, h, live)" and
    p: "live = [(0, 0), (0, 32), (1, 0), (1, 16)] \<and> chunks pool = [0, 1] \<and>
          esize pool = 16 \<and> pchunk pool = 4"
    by (rule holds_afterE)
  have as: "all_slots pool = [(0, 0), (0, 16), (0, 32), (0, 48), (1, 0), (1, 16), (1, 32), (1, 48)]"
    using p by (simp add: all_slots_def chunk_slots_def slots_def upt_rec)
  have h: "(0::int) \<le> 4" "(1::int) \<le> 4" "(2 AND BLI_MEMPOOL_ALLOW_ITER) \<noteq> (0::int)"
    by (simp_all add: BLI_MEMPOOL_ALLOW_ITER_def)
  from C3_iteration_yields_live [OF s h] p
  have "BLI_mempool_as_table False pool h = Inr [(0, 0), (0, 32), (1, 0), (1, 16)]"
    "BLI_mempool_count pool = 4"
    by (auto simp: as)
  with s show ?thesis by blast
qed

text \<open>
  C4, as stated, fails: for an estimate of 4 elements and 4 elements per chunk the code
  allocates the chunks 0 and 1, where the rounded-up quotient is 1.
\<close>

theorem C4_counterexample:
  "created_chunks 16 4 4 2 empty_heap = Inr [0, 1] \<and> chunksNeeded_spec 4 4 = 1"
  by code_simp

text \<open>
  C4, amended. For an estimate \<open>totelem \<ge> 0\<close> and \<open>pchunk \<ge> 1\<close> elements per chunk (with
  the chunk size and the count in the range of \<^verbatim>\<open>int\<close>), \<^verbatim>\<open>BLI_mempool_create\<close> succeeds
  and allocates exactly \<open>totelem div pchunk + 1\<close> chunks: one more than the quotient
  rounded down.
\<close>

theorem C4_chunks_created:
  assumes "0 \<le> totelem" and "1 \<le> pchunk0"
    and "int_ok (max esize0 MEMPOOL_ELEM_SIZE_MIN * pchunk0)"
    and "int_ok (totelem div pchunk0 + 1)"
  shows "\<exists>cs. created_chunks esize0 totelem pchunk0 flag0 h0 = Inr cs \<and>
           int (length cs) = totelem div pchunk0 + 1"
proof -
  from create_ok [OF assms, of flag0 h0] obtain pool h where
    c: "BLI_mempool_create esize0 totelem pchunk0 flag0 h0 = Inr (pool, h)" and
    ch: "chunks pool = [brk h0..<brk h0 + nat (totelem div pchunk0 + 1)]"
    by blast
  have "0 \<le> totelem div pchunk0" using assms(1,2) by (simp add: pos_imp_zdiv_nonneg_iff)
  then have "int (length (chunks pool)) = totelem div pchunk0 + 1" unfolding ch by simp
  with c show ?thesis by (simp add: created_chunks_def)
qed

theorem C4_witness:
  "\<exists>cs. created_chunks 16 8 4 0 empty_heap = Inr cs \<and> int (length cs) = 3"
proof -
  have "(0::int) \<le> 8" "(1::int) \<le> 4" "int_ok (max 16 MEMPOOL_ELEM_SIZE_MIN * 4)"
    "int_ok (8 div 4 + 1)"
    by (simp_all add: int_ok_def INT_MIN_def INT_MAX_def MEMPOOL_ELEM_SIZE_MIN_def sizeof_ptr_def)
  from C4_chunks_created [OF this, of 0 empty_heap] show ?thesis by simp
qed

text \<open>
  C5, as stated, fails: the first chunk and its storage are not released and the chunk that
  remains is not a fresh one. After three allocations in chunks of two slots the pool has the
  chunks 0 and 1; after clearing it has the chunk 0, still the allocated block of 32 bytes, and
  no block has been handed out (the next block name is 2 before and after).
\<close>

theorem C5_counterexample:
  "final_chunks (session 16 0 2 2 empty_heap False [Alloc, Alloc, Alloc]) = Some [0, 1] \<and>
   final_brk (session 16 0 2 2 empty_heap False [Alloc, Alloc, Alloc]) = Some 2 \<and>
   final_chunks (session 16 0 2 2 empty_heap False [Alloc, Alloc, Alloc, Clear]) = Some [0] \<and>
   final_block (session 16 0 2 2 empty_heap False [Alloc, Alloc, Alloc, Clear]) 0 = Some 32 \<and>
   final_block (session 16 0 2 2 empty_heap False [Alloc, Alloc, Alloc, Clear]) 1 = None \<and>
   final_brk (session 16 0 2 2 empty_heap False [Alloc, Alloc, Alloc, Clear]) = Some 2"
  by code_simp

text \<open>
  C5, amended. \<^verbatim>\<open>BLI_mempool_clear\<close> releases every chunk but the first; the first chunk is
  kept, allocated as it was, and no chunk is allocated. The live count becomes 0, the free
  list is the chain of all the slots of the kept chunk in slot order (each tagged
  \<open>FREEWORD\<close> when iteration is enabled), and the configuration is unchanged: the state of
  a pool just created with one chunk.
\<close>

theorem C5_clear_keeps_first_chunk:
  assumes "session esize0 totelem pchunk0 flag0 h0 ndebug ops = Inr (pool, h, live)"
    and "0 \<le> totelem" and "1 \<le> pchunk0"
  shows "\<exists>pool' h'.
           BLI_mempool_clear pool h = Inr (pool', h') \<and>
           chunks pool' = [hd (chunks pool)] \<and>
           blocks h' (hd (chunks pool)) = blocks h (hd (chunks pool)) \<and>
           blocks h (hd (chunks pool)) = Some (csize pool) \<and>
           (\<forall>c \<in> set (tl (chunks pool)). blocks h' c = None) \<and>
           brk h' = brk h \<and>
           BLI_mempool_count pool' = 0 \<and>
           fl_seg (node_next h') (free pool') (all_slots pool') None \<and>
           all_slots pool' = chunk_slots pool (hd (chunks pool)) \<and>
           (allow_iter pool \<longrightarrow> (\<forall>x \<in> set (all_slots pool'). node_freeword h' x = Some FREEWORD)) \<and>
           same_cfg pool pool'"
proof -
  note s = session_inv [OF assms(1-3)]
  from s(1) obtain fl where fl: "pool_inv_fl pool h live fl" by (auto simp: pool_inv_def)
  then have cfg: "pool_cfg pool" and ph: "pool_heap pool h" by (simp_all add: pool_inv_fl_def)
  from fl obtain first others where ch: "chunks pool = first # others"
    by (cases "chunks pool") (auto simp: pool_inv_fl_def)
  define P where "P = pool\<lparr>chunks := [first], totused := 0, free := Some (first, 0)\<rparr>"
  define H where "H = cleared_heap pool first others h"
  have eq: "BLI_mempool_clear pool h = Inr (P, H)"
    using clear_eq [OF cfg ph ch] by (simp add: P_def H_def)
  from clear_inv [OF cfg ph ch] have i: "pool_inv_fl P H [] (chunk_slots pool first)"
    by (simp add: P_def H_def)
  from ph ch have fo: "first \<notin> set others" and bf: "blocks h first = Some (csize pool)"
    by (auto simp: pool_heap_def)
  have as: "all_slots P = chunk_slots pool first" by (simp add: P_def)
  have it: "allow_iter P = allow_iter pool" by (simp add: P_def)
  from i have path: "fl_seg (node_next H) (free P) (all_slots P) None"
    and tg: "allow_iter pool \<longrightarrow> (\<forall>x \<in> set (all_slots P). node_freeword H x = Some FREEWORD)"
    unfolding pool_inv_fl_def as it by simp_all
  have b: "blocks H first = blocks h first" "\<forall>c \<in> set others. blocks H c = None" "brk H = brk h"
    using fo by (simp_all add: H_def cleared_heap_def release_heap_simps)
  have "chunks P = [first]" "BLI_mempool_count P = 0" "same_cfg pool P"
    by (simp_all add: P_def BLI_mempool_count_def same_cfg_def)
  with eq path tg b bf as show ?thesis
    unfolding ch by (intro exI [of _ P] exI [of _ H]) simp
qed

theorem C5_witness:
  "\<exists>pool h live pool' h'.
     session 16 0 2 2 empty_heap False [Alloc, Alloc, Alloc] = Inr (pool, h, live) \<and>
     chunks pool = [0, 1] \<and>
     BLI_mempool_clear pool h = Inr (pool', h') \<and>
     chunks pool' = [0] \<and> blocks h' 0 = Some 32 \<and> blocks h' 1 = None \<and>
     BLI_mempool_count pool' = 0"
proof -
  have "holds_after (session 16 0 2 2 empty_heap False [Alloc, Alloc, Alloc])
       (\<lambda>pool h live. chunks pool = [0, 1] \<and> csize pool = 32)"
    by code_simp
  then obtain pool h live where
    s: "session 16 0 2 2 empty_heap False [Alloc, Alloc, Alloc] = Inr (pool, h, live)" and
    p: "chunks pool = [0, 1] \<and> csize pool = 32"
    by (rule holds_afterE)
  have "(0::int) \<le> 0" "(1::int) \<le> 2" by simp_all
  from C5_clear_keeps_first_chunk [OF s this] p obtain pool' h' where
    "BLI_mempool_clear pool h = Inr (pool', h')" "chunks pool' = [0]" "blocks h' 0 = Some 32"
    "blocks h' 1 = None" "BLI_mempool_count pool' = 0"
    by auto
  with s p show ?thesis by blast
qed

text \<open>
  C6. \<^verbatim>\<open>BLI_mempool_alloc\<close> increments the live count. If the free list is empty it
  allocates one chunk, appends it to the chunk list and threads its slots, touching nothing
  outside the new chunk; otherwise it allocates no chunk and changes no link. It then takes
  the head of the free list off (the new head is the \<^verbatim>\<open>next\<close> of the slot taken), tags
  the slot as in use when iteration is enabled, and returns the slot.
\<close>

theorem C6_alloc_behaviour:
  assumes "session esize0 totelem pchunk0 flag0 h0 ndebug ops = Inr (pool, h, live)"
    and "0 \<le> totelem" and "1 \<le> pchunk0"
    and "BLI_mempool_count pool < INT_MAX"
  shows "\<exists>a pool' h'.
           BLI_mempool_alloc pool h = Inr (Some a, pool', h') \<and>
           BLI_mempool_count pool' = BLI_mempool_count pool + 1 \<and>
           (if free pool = None
            then chunks pool' = chunks pool @ [brk h] \<and>
                 blocks h' = (blocks h)(brk h \<mapsto> csize pool) \<and> brk h' = Suc (brk h) \<and>
                 a = (brk h, 0) \<and>
                 fl_seg (node_next h') (Some a) (chunk_slots pool' (brk h)) None \<and>
                 (\<forall>x. fst x \<noteq> brk h \<longrightarrow>
                    node_next h' x = node_next h x \<and> node_freeword h' x = node_freeword h x)
            else chunks pool' = chunks pool \<and> blocks h' = blocks h \<and> brk h' = brk h \<and>
                 free pool = Some a \<and> node_next h' = node_next h \<and>
                 (\<forall>x. x \<noteq> a \<longrightarrow> node_freeword h' x = node_freeword h x)) \<and>
           node_next h' a = Some (free pool') \<and>
           (allow_iter pool \<longrightarrow> node_freeword h' a = Some USEDWORD)"
proof -
  note s = session_inv [OF assms(1-3)]
  from s(1) obtain fl where fl: "pool_inv_fl pool h live fl" by (auto simp: pool_inv_def)
  then have cfg: "pool_cfg pool" by (simp add: pool_inv_fl_def)
  from assms(4) have ok: "totused pool < INT_MAX" by (simp add: BLI_mempool_count_def)
  show ?thesis
  proof (cases fl)
    case Nil
    from fl Nil have fr: "free pool = None" by (simp add: pool_inv_fl_def)
    from fl have "0 \<le> totused pool" by (simp add: pool_inv_fl_def)
    with ok have io: "int_ok (totused pool + 1)" by (simp add: int_ok_def INT_MIN_def)
    define c where "c = brk h"
    define G where "G = grown_heap pool h"
    define H where "H = (if allow_iter pool
            then G\<lparr>node_freeword := (node_freeword G)((c, 0) \<mapsto> USEDWORD)\<rparr> else G)"
    define P where "P = pool\<lparr>totused := totused pool + 1, chunks := chunks pool @ [c],
                 free := (if pchunk pool = 1 then None else Some (c, esize pool))\<rparr>"
    have eq: "BLI_mempool_alloc pool h = Inr (Some (c, 0), P, H)"
      using alloc_grow_eq [OF cfg fr io, of h] by (simp add: P_def H_def G_def c_def)
    from pool_cfg_pos [OF cfg] have np: "0 < nat (pchunk pool)" and e: "0 < esize pool"
      and pn: "int (nat (pchunk pool)) = pchunk pool"
      by simp_all
    have nH: "node_next H = node_next G" by (simp add: H_def)
    have path: "fl_seg (node_next H) (Some (c, 0)) (chunk_slots P c) None"
      using chunk_heap_path [OF e np, of "allow_iter pool" c None "snd (heap_alloc (csize pool) h)"]
      by (simp add: nH G_def grown_heap_def chunk_slots_def P_def c_def)
    have in0: "(c, 0) \<in> slot_set (esize pool) c 0 (nat (pchunk pool))"
      using slot_in_set [of 0 0 "nat (pchunk pool)" c "esize pool"] np by simp
    have nx: "node_next H (c, 0) = Some (free P)"
      using in0 e pn by (auto simp: nH G_def grown_heap_def chunk_heap_next P_def c_def)
    have frame: "node_next H x = node_next h x \<and> node_freeword H x = node_freeword h x"
      if "fst x \<noteq> c" for x
      using that grown_heap_simps(3,4) [of x h pool]
      by (auto simp: H_def G_def c_def)
    have bl: "blocks H = (blocks h)(c \<mapsto> csize pool)" "brk H = Suc c"
      by (simp_all add: H_def G_def c_def grown_heap_simps)
    have tg: "allow_iter pool \<longrightarrow> node_freeword H (c, 0) = Some USEDWORD" by (simp add: H_def)
    have "BLI_mempool_count P = BLI_mempool_count pool + 1" "chunks P = chunks pool @ [c]"
      by (simp_all add: BLI_mempool_count_def P_def)
    with eq path nx frame bl tg fr show ?thesis
      unfolding c_def [symmetric] by (intro exI [of _ "(c, 0)"] exI [of _ P] exI [of _ H]) simp
  next
    case (Cons a fl')
    from fl Cons have fr: "free pool = Some a" by (simp add: pool_inv_fl_def)
    from alloc_pop [OF fl [unfolded Cons] ok] obtain r where
      r: "node_next h a = Some r" and
      eq: "BLI_mempool_alloc pool h =
       Inr (Some a, pool\<lparr>totused := totused pool + 1, free := r\<rparr>,
            if allow_iter pool then h\<lparr>node_freeword := (node_freeword h)(a \<mapsto> USEDWORD)\<rparr> else h)"
      by blast
    show ?thesis
      using eq r fr
      by (intro exI [of _ a] exI [of _ "pool\<lparr>totused := totused pool + 1, free := r\<rparr>"]
          exI [of _ "if allow_iter pool then h\<lparr>node_freeword := (node_freeword h)(a \<mapsto> USEDWORD)\<rparr> else h"])
        (simp add: BLI_mempool_count_def)
  qed
qed

theorem C6_witness:
  "\<exists>pool h live pool' h'.
     session 16 0 2 2 empty_heap False [Alloc, Alloc] = Inr (pool, h, live) \<and>
     free pool = None \<and> chunks pool = [0] \<and>
     BLI_mempool_alloc pool h = Inr (Some (1, 0), pool', h') \<and>
     chunks pool' = [0, 1] \<and> node_freeword h' (1, 0) = Some USEDWORD"
proof -
  have "holds_after (session 16 0 2 2 empty_heap False [Alloc, Alloc])
       (\<lambda>pool h live. BLI_mempool_count pool < INT_MAX \<and> free pool = None \<and> chunks pool = [0] \<and>
          brk h = 1 \<and> allow_iter pool)"
    by code_simp
  then obtain pool h live where
    s: "session 16 0 2 2 empty_heap False [Alloc, Alloc] = Inr (pool, h, live)" and
    p: "BLI_mempool_count pool < INT_MAX \<and> free pool = None \<and> chunks pool = [0] \<and>
          brk h = 1 \<and> allow_iter pool"
    by (rule holds_afterE)
  have "(0::int) \<le> 0" "(1::int) \<le> 2" by simp_all
  from C6_alloc_behaviour [OF s this] p obtain pool' h' where
    "BLI_mempool_alloc pool h = Inr (Some (1, 0), pool', h')" "chunks pool' = [0, 1]"
    "node_freeword h' (1, 0) = Some USEDWORD"
    by auto
  with s p show ?thesis by blast
qed

text \<open>
  C7. For a pool created with the iteration flag, in every state reached by creating,
  allocating, freeing live references and clearing, every slot on the free list carries
  the tag \<open>FREEWORD\<close> and no live slot does; the free slots and the live slots are
  disjoint and together are all the slots of the pool.
\<close>

theorem C7_tag_invariant:
  assumes "session esize0 totelem pchunk0 flag0 h0 ndebug ops = Inr (pool, h, live)"
    and "0 \<le> totelem" and "1 \<le> pchunk0"
    and "(flag0 AND BLI_MEMPOOL_ALLOW_ITER) \<noteq> 0"
  shows "\<exists>fl. fl_seg (node_next h) (free pool) fl None \<and>
           (\<forall>a \<in> set fl. node_freeword h a = Some FREEWORD) \<and>
           (\<forall>a \<in> set live. node_freeword h a \<noteq> Some FREEWORD) \<and>
           set fl \<union> set live = set (all_slots pool) \<and> set fl \<inter> set live = {}"
proof -
  note s = session_inv [OF assms(1-3)]
  from s(2) assms(4) have it: "allow_iter pool" by (simp add: allow_iter_def)
  from s(1) obtain fl where "pool_inv_fl pool h live fl" by (auto simp: pool_inv_def)
  with it have "fl_seg (node_next h) (free pool) fl None \<and>
           (\<forall>a \<in> set fl. node_freeword h a = Some FREEWORD) \<and>
           (\<forall>a \<in> set live. node_freeword h a \<noteq> Some FREEWORD) \<and>
           set fl \<union> set live = set (all_slots pool) \<and> set fl \<inter> set live = {}"
    unfolding pool_inv_fl_def using FREEWORD_neq_USEDWORD by auto
  then show ?thesis ..
qed

theorem C7_witness:
  "\<exists>pool h live fl.
     session 16 0 2 2 empty_heap False
       [Alloc, Alloc, Alloc, Free (0, 16), Free (0, 0), Free (1, 0), Alloc, Clear, Alloc, Alloc] =
       Inr (pool, h, live) \<and>
     live = [(0, 0), (0, 16)] \<and>
     fl_seg (node_next h) (free pool) fl None \<and>
     (\<forall>a \<in> set fl. node_freeword h a = Some FREEWORD) \<and>
     (\<forall>a \<in> set live. node_freeword h a \<noteq> Some FREEWORD)"
proof -
  have "holds_after (session 16 0 2 2 empty_heap False
       [Alloc, Alloc, Alloc, Free (0, 16), Free (0, 0), Free (1, 0), Alloc, Clear, Alloc, Alloc])
       (\<lambda>pool h live. live = [(0, 0), (0, 16)])"
    by code_simp
  then obtain pool h live where
    s: "session 16 0 2 2 empty_heap False
       [Alloc, Alloc, Alloc, Free (0, 16), Free (0, 0), Free (1, 0), Alloc, Clear, Alloc, Alloc] =
       Inr (pool, h, live)" and l: "live = [(0, 0), (0, 16)]"
    by (rule holds_afterE)
  have f: "(2 AND BLI_MEMPOOL_ALLOW_ITER) \<noteq> (0::int)" by (simp add: BLI_MEMPOOL_ALLOW_ITER_def)
  from C7_tag_invariant [OF s _ _ f] s l show ?thesis by auto
qed

text \<open>
  C8. Right after \<^verbatim>\<open>BLI_mempool_create\<close> the free list is one chain through every slot of
  every chunk, chunk after chunk in the order the chunks were allocated and in slot order
  within a chunk, ending at \<^verbatim>\<open>NULL\<close>; its head is the first slot of the first chunk.
\<close>

theorem C8_create_threads_all_slots:
  assumes "BLI_mempool_create esize0 totelem pchunk0 flag0 h0 = Inr (pool, h)"
    and "0 \<le> totelem" and "1 \<le> pchunk0"
  shows "fl_seg (node_next h) (free pool) (all_slots pool) None \<and>
         chunks pool = [brk h0..<brk h0 + nat (totelem div pchunk0 + 1)] \<and>
         free pool = Some (hd (chunks pool), 0)"
proof -
  note p = create_props [OF assms]
  from p(1) obtain lt where i: "create_inv pool h lt" ..
  then have path: "fl_seg (node_next h) (free pool) (all_slots pool) None"
    and cfg: "pool_cfg pool"
    by (simp_all add: create_inv_def)
  from p(7) obtain c cs where ch: "chunks pool = c # cs" by (cases "chunks pool") auto
  from pool_cfg_pos [OF cfg] have "0 < nat (pchunk pool)" by simp
  then have "chunk_slots pool c = (c, 0) # slots (esize pool) c (Suc 0) (nat (pchunk pool))"
    by (simp add: chunk_slots_def slots_Cons)
  with path ch have "free pool = Some (c, 0)" by (simp add: all_slots_def)
  moreover have "hd (chunks pool) = c" using ch by simp
  ultimately have "free pool = Some (hd (chunks pool), 0)" by simp
  with path p(2) show ?thesis by (intro conjI)
qed

theorem C8_witness:
  "\<exists>pool h.
     BLI_mempool_create 16 4 4 2 empty_heap = Inr (pool, h) \<and>
     chunks pool = [0, 1] \<and>
     fl_seg (node_next h) (Some (0, 0))
       [(0, 0), (0, 16), (0, 32), (0, 48), (1, 0), (1, 16), (1, 32), (1, 48)] None"
proof -
  have "succeeds (BLI_mempool_create 16 4 4 2 empty_heap)" by code_simp
  then obtain pool h where c: "BLI_mempool_create 16 4 4 2 empty_heap = Inr (pool, h)"
    by (elim succeeds_Inr) (metis surj_pair)
  have "(0::int) \<le> 4" "(1::int) \<le> 4" by simp_all
  from C8_create_threads_all_slots [OF c this] have
    1: "fl_seg (node_next h) (free pool) (all_slots pool) None" and
    2: "chunks pool = [brk empty_heap..<brk empty_heap + nat (4 div 4 + 1)]" and
    3: "free pool = Some (hd (chunks pool), 0)"
    by blast+
  from 2 have ch: "chunks pool = [0, 1]" by (simp add: empty_heap_def upt_rec)
  have "esize pool = 16" "pchunk pool = 4"
    using create_props(3,4) [OF c] by (simp_all add: MEMPOOL_ELEM_SIZE_MIN_def sizeof_ptr_def)
  then have "all_slots pool = [(0, 0), (0, 16), (0, 32), (0, 48), (1, 0), (1, 16), (1, 32), (1, 48)]"
    by (simp add: all_slots_def chunk_slots_def slots_def ch upt_rec)
  with 1 3 c ch show ?thesis by simp
qed

text \<open>
  C9. For a pool created with the iteration flag, \<^verbatim>\<open>BLI_mempool_findelem\<close> returns the live
  element at position \<open>index\<close> of the iteration order when \<open>0 \<le> index < count\<close>, and
  \<^verbatim>\<open>NULL\<close> for every other index, the negative ones included. (The function returns no
  pool and no heap: it cannot change them.)
\<close>

theorem C9_findelem_by_index:
  assumes "session esize0 totelem pchunk0 flag0 h0 ndebug ops = Inr (pool, h, live)"
    and "0 \<le> totelem" and "1 \<le> pchunk0"
    and "(flag0 AND BLI_MEMPOOL_ALLOW_ITER) \<noteq> 0"
  shows "BLI_mempool_findelem ndebug pool h index =
           Inr (if 0 \<le> index \<and> index < BLI_mempool_count pool
                then Some (filter (\<lambda>a. a \<in> set live) (all_slots pool) ! nat index)
                else None) \<and>
         BLI_mempool_as_table ndebug pool h = Inr (filter (\<lambda>a. a \<in> set live) (all_slots pool))"
proof -
  note s = session_inv [OF assms(1-3)]
  from s(2) assms(4) have it: "allow_iter pool" by (simp add: allow_iter_def)
  from findelem_spec [OF s(1) it, of ndebug index] as_table_spec [OF s(1) it, of ndebug]
  show ?thesis by (simp add: BLI_mempool_count_def)
qed

theorem C9_witness:
  "\<exists>pool h live.
     session 16 4 4 2 empty_heap False
       [Alloc, Alloc, Alloc, Alloc, Alloc, Alloc, Free (0, 16), Free (0, 48)] = Inr (pool, h, live) \<and>
     BLI_mempool_findelem False pool h 2 = Inr (Some (1, 0)) \<and>
     BLI_mempool_findelem False pool h 4 = Inr None \<and>
     BLI_mempool_findelem False pool h (- 1) = Inr None"
proof -
  have "holds_after (session 16 4 4 2 empty_heap False
       [Alloc, Alloc, Alloc, Alloc, Alloc, Alloc, Free (0, 16), Free (0, 48)])
       (\<lambda>pool h live. live = [(0, 0), (0, 32), (1, 0), (1, 16)] \<and> chunks pool = [0, 1] \<and>
          esize pool = 16 \<and> pchunk pool = 4 \<and> BLI_mempool_count pool = 4)"
    by code_simp
  then obtain pool h live where
    s: "session 16 4 4 2 empty_heap False
       [Alloc, Alloc, Alloc, Alloc, Alloc, Alloc, Free (0, 16), Free (0, 48)] = Inr (pool, h, live)" and
    p: "live = [(0, 0), (0, 32), (1, 0), (1, 16)] \<and> chunks pool = [0, 1] \<and>
          esize pool = 16 \<and> pchunk pool = 4 \<and> BLI_mempool_count pool = 4"
    by (rule holds_afterE)
  have as: "all_slots pool = [(0, 0), (0, 16), (0, 32), (0, 48), (1, 0), (1, 16), (1, 32), (1, 48)]"
    using p by (simp add: all_slots_def chunk_slots_def slots_def upt_rec)
  have h: "(0::int) \<le> 4" "(1::int) \<le> 4" "(2 AND BLI_MEMPOOL_ALLOW_ITER) \<noteq> (0::int)"
    by (simp_all add: BLI_MEMPOOL_ALLOW_ITER_def)
  note f = C9_findelem_by_index [OF s h]
  from f [of 2] f [of 4] f [of "- 1"] p
  have "BLI_mempool_findelem False pool h 2 = Inr (Some (1, 0))"
    "BLI_mempool_findelem False pool h 4 = Inr None"
    "BLI_mempool_findelem False pool h (- 1) = Inr None"
    by (simp_all add: as)
  with s show ?thesis by blast
qed

text \<open>
  C10. When a live reference is freed and other elements stay live (no shrink), the free
  succeeds, the live count drops by one, and the allocation that follows returns that same
  reference.
\<close>

theorem C10_freed_slot_is_reused_first:
  assumes "session esize0 totelem pchunk0 flag0 h0 ndebug ops = Inr (pool, h, live)"
    and "0 \<le> totelem" and "1 \<le> pchunk0"
    and "a \<in> set live"
    and "1 < BLI_mempool_count pool"
  shows "\<exists>pool' h' pool'' h''.
           BLI_mempool_free ndebug pool (Some a) h = Inr (pool', h') \<and>
           BLI_mempool_count pool' = BLI_mempool_count pool - 1 \<and>
           BLI_mempool_alloc pool' h' = Inr (Some a, pool'', h'')"
proof -
  note s = session_inv [OF assms(1-3)]
  from s(1) obtain fl where fl: "pool_inv_fl pool h live fl" by (auto simp: pool_inv_def)
  from assms(5) have ne: "totused pool \<noteq> 1" by (simp add: BLI_mempool_count_def)
  define P where "P = pool\<lparr>free := Some a, totused := totused pool - 1\<rparr>"
  define H where "H = freed_heap pool a h"
  have eq: "BLI_mempool_free ndebug pool (Some a) h = Inr (P, H)"
    using free_push_eq [OF fl assms(4) ne, of ndebug] by (simp add: P_def H_def)
  from free_push_inv [OF fl assms(4)] have i: "pool_inv_fl P H (remove1 a live) (a # fl)"
    by (simp add: P_def H_def)
  from fl have "totused pool \<le> INT_MAX" by (simp add: pool_inv_fl_def)
  then have "totused P < INT_MAX" by (simp add: P_def)
  from alloc_pop [OF i this] obtain pool'' h'' where
    al: "BLI_mempool_alloc P H = Inr (Some a, pool'', h'')"
    by blast
  have "BLI_mempool_count P = BLI_mempool_count pool - 1"
    by (simp add: P_def BLI_mempool_count_def)
  with eq al show ?thesis by blast
qed

theorem C10_witness:
  "\<exists>pool h live pool' h' pool'' h''.
     session 16 4 4 2 empty_heap False [Alloc, Alloc, Alloc] = Inr (pool, h, live) \<and>
     BLI_mempool_free False pool (Some (0, 16)) h = Inr (pool', h') \<and>
     BLI_mempool_alloc pool' h' = Inr (Some (0, 16), pool'', h'')"
proof -
  have "holds_after (session 16 4 4 2 empty_heap False [Alloc, Alloc, Alloc])
       (\<lambda>pool h live. (0, 16) \<in> set live \<and> 1 < BLI_mempool_count pool)"
    by code_simp
  then obtain pool h live where
    s: "session 16 4 4 2 empty_heap False [Alloc, Alloc, Alloc] = Inr (pool, h, live)" and
    p: "(0, 16) \<in> set live \<and> 1 < BLI_mempool_count pool"
    by (rule holds_afterE)
  have "(0::int) \<le> 4" "(1::int) \<le> 4" by simp_all
  from C10_freed_slot_is_reused_first [OF s this, where a = "(0, 16)"] p s show ?thesis by blast
qed

end
